theory Spec2Isabelle
  imports Main
begin

section \<open>Stupid Simple JSON: lexer, recursive-descent parser, element tree, serializer\<close>

text \<open>
  A shallow embedding of \<^verbatim>\<open>src/JSON.cpp\<close>, \<^verbatim>\<open>src/JSONElement.h\<close> and \<^verbatim>\<open>JSON/JSON.h\<close>.

  \<^item> \<^verbatim>\<open>std::string\<close> is \<open>string\<close>; positions (\<^verbatim>\<open>size_t\<close>, and the \<^verbatim>\<open>unsigned int pos\<close> of
    \<^verbatim>\<open>Lex\<close>) are \<open>nat\<close>, \<^verbatim>\<open>string::npos\<close> is \<open>None\<close>. Inputs are taken to be shorter than
    \<open>2^32\<close> characters, so that no position wraps.
  \<^item> A \<^verbatim>\<open>vector<string>::iterator\<close> into the token vector is the suffix of the token list that
    starts at the iterator: \<^verbatim>\<open>*it\<close> is the head, \<^verbatim>\<open>it == end\<close> is the empty list, \<^verbatim>\<open>++it\<close> and
    \<^verbatim>\<open>next(it)\<close> are the tail.
  \<^item> A \<^verbatim>\<open>throw\<close> of a \<^verbatim>\<open>JSON::Error\<close> is \<open>Inl (Throw e)\<close>. A \<^verbatim>\<open>std::out_of_range\<close> leaving
    \<^verbatim>\<open>std::stoll\<close> or \<^verbatim>\<open>std::stold\<close> is caught by no handler of the program and is
    \<open>Inl Uncaught_out_of_range\<close>. Dereferencing the end iterator or a null
    \<^verbatim>\<open>shared_ptr\<close> has no defined behaviour in C++ and is \<open>Inl Undefined\<close>.
  \<^item> The element classes are one datatype, the constructor being the \<^verbatim>\<open>m_Type\<close> tag and the
    first argument \<^verbatim>\<open>m_Key\<close>. The non-owning \<^verbatim>\<open>m_pParent\<close> back-reference is written by
    \<^verbatim>\<open>SetParent\<close> and read by no function of the sources; in the tree it is the position of
    the element and has no field of its own.
\<close>

subsection \<open>Error codes and failures\<close>

datatype Error =
    E_NO_ERROR
  | E_INVALID_JSON
  | E_LEXING_ERR_INVALID_VALUE
  | E_LEXING_ERR_INVALID_STRING
  | E_INVALID_JSON_KEY_STRING
  | E_INVALID_JSON_KEY_COLON
  | E_PARSE_ERR_INVALID_STRING
  | E_PARSE_ERR_UNKNOWN_ELEMENT
  | E_PARSE_ERR_INVALID_NUMBER
  | E_PARSE_ERROR_INVALID_LITERAL_CASE
  | E_PARSE_ERR_INVALID_OBJECT
  | E_PARSE_ERR_OBJECT_OPENING_BRACKET
  | E_PARSE_ERR_OBJECT_CLOSING_BRACKET
  | E_PARSE_ERR_INVALID_ARRAY
  | E_PARSE_ERR_ARRAY_OPENING_BRACKET
  | E_PARSE_ERR_ARRAY_CLOSING_BRACKET

datatype fault = Throw Error | Uncaught_out_of_range | Undefined

subsection \<open>String primitives of the standard library\<close>

text \<open>\<^verbatim>\<open>str.substr(pos, n)\<close> and \<^verbatim>\<open>str.find(c, pos)\<close>.\<close>

definition substr :: "string \<Rightarrow> nat \<Rightarrow> nat \<Rightarrow> string" where
  "substr str pos n = take n (drop pos str)"

function find_char :: "string \<Rightarrow> char \<Rightarrow> nat \<Rightarrow> nat option" where
  "find_char str c pos =
     (if pos < length str
      then (if str ! pos = c then Some pos else find_char str c (pos + 1))
      else None)"
  by pat_completeness auto
termination
  by (relation "measure (\<lambda>(str, c, pos). length str - pos)") auto

declare find_char.simps [simp del]

lemma find_char_bounds:
  "find_char str c pos = Some e \<Longrightarrow> pos \<le> e \<and> e < length str \<and> str ! e = c"
proof (induction str c pos rule: find_char.induct)
  case (1 str c pos)
  then show ?case
    by (subst (asm) (2) find_char.simps) (auto split: if_splits)
qed

subsection \<open>Lexer\<close>

text \<open>
  \<^verbatim>\<open>FindClosingQuotationMark\<close>: the loop looks for the next double quote from \<open>offset\<close> and
  accepts it unless the character before it is a backslash. \<^verbatim>\<open>Lex\<close> calls it with
  \<open>offset = pos + 1\<close>, so \<open>endPos - 1\<close> is a position of the string.
\<close>

function FindClosingQuotationMark :: "string \<Rightarrow> nat \<Rightarrow> nat option" where
  "FindClosingQuotationMark str offset =
     (case find_char str (CHR 0x22) offset of
        None \<Rightarrow> None
      | Some endPos \<Rightarrow>
          if str ! (endPos - 1) \<noteq> CHR 0x5C then Some endPos
          else FindClosingQuotationMark str (endPos + 1))"
  by pat_completeness auto
termination
  by (relation "measure (\<lambda>(str, offset). length str - offset)")
     (auto dest!: find_char_bounds)

declare FindClosingQuotationMark.simps [simp del]

text \<open>\<^verbatim>\<open>FindClosingCharacter\<close>, with its constant \<^verbatim>\<open>closingChars = "{}[], \r\n\t"\<close>.\<close>

definition closingChars :: string where
  "closingChars = [CHR ''{'', CHR ''}'', CHR ''['', CHR '']'', CHR '','', CHR '' '', CHR 0x0D, CHR 0x0A, CHR 0x09]"

function FindClosingCharacter :: "string \<Rightarrow> nat \<Rightarrow> nat option" where
  "FindClosingCharacter str pos =
     (if pos < length str
      then (if str ! pos \<in> set closingChars then Some pos
            else FindClosingCharacter str (pos + 1))
      else None)"
  by pat_completeness auto
termination
  by (relation "measure (\<lambda>(str, pos). length str - pos)") auto

declare FindClosingCharacter.simps [simp del]

lemma FindClosingCharacter_bounds:
  "FindClosingCharacter str pos = Some e \<Longrightarrow> pos \<le> e \<and> e < length str"
proof (induction str pos rule: FindClosingCharacter.induct)
  case (1 str pos)
  then show ?case
    by (subst (asm) (2) FindClosingCharacter.simps) (auto split: if_splits)
qed

lemma FindClosingQuotationMark_bounds:
  "FindClosingQuotationMark str offset = Some e \<Longrightarrow> offset \<le> e \<and> e < length str"
proof (induction str offset rule: FindClosingQuotationMark.induct)
  case (1 str offset)
  then show ?case
    by (subst (asm) (2) FindClosingQuotationMark.simps)
       (auto split: option.splits if_splits dest!: find_char_bounds)
qed

text \<open>
  \<^verbatim>\<open>Lex\<close>: the \<^verbatim>\<open>switch\<close> on \<^verbatim>\<open>str[pos]\<close> has the case groups whitespace, structural character,
  double quote and \<^verbatim>\<open>default\<close>; the \<^verbatim>\<open>for\<close> loop increments \<open>pos\<close> after each of them.
\<close>

definition is_whitespace :: "char \<Rightarrow> bool" where
  "is_whitespace c \<longleftrightarrow> c = CHR '' '' \<or> c = CHR 0x0D \<or> c = CHR 0x0A \<or> c = CHR 0x09"

definition is_structural :: "char \<Rightarrow> bool" where
  "is_structural c \<longleftrightarrow> c = CHR ''{'' \<or> c = CHR ''}'' \<or> c = CHR ''['' \<or> c = CHR '']''
     \<or> c = CHR '':'' \<or> c = CHR '',''"

function LexLoop :: "string \<Rightarrow> nat \<Rightarrow> string list \<Rightarrow> fault + string list" where
  "LexLoop str pos tokens =
     (if pos < length str then
        (if is_whitespace (str ! pos) then LexLoop str (pos + 1) tokens
         else if is_structural (str ! pos) then LexLoop str (pos + 1) (tokens @ [substr str pos 1])
         else if str ! pos = CHR 0x22 then
           (case FindClosingQuotationMark str (pos + 1) of
              Some endPos \<Rightarrow> LexLoop str (endPos + 1) (tokens @ [substr str pos (endPos - pos + 1)])
            | None \<Rightarrow> Inl (Throw E_LEXING_ERR_INVALID_STRING))
         else
           (case FindClosingCharacter str pos of
              Some endPos \<Rightarrow> LexLoop str (endPos - 1 + 1) (tokens @ [substr str pos (endPos - pos)])
            | None \<Rightarrow> Inl (Throw E_LEXING_ERR_INVALID_VALUE)))
      else Inr tokens)"
  by pat_completeness auto
termination
proof (relation "measure (\<lambda>(str, pos, tokens). length str - pos)", goal_cases)
  case 1 show ?case by simp
next
  case 2 then show ?case by simp
next
  case 3 then show ?case by simp
next
  case (4 str pos tokens endPos)
  then show ?case by (auto dest!: FindClosingQuotationMark_bounds)
next
  case (5 str pos tokens endPos)
  from 5(5) have b: "pos \<le> endPos \<and> endPos < length str"
    by (rule FindClosingCharacter_bounds)
  from 5(5) have "str ! endPos \<in> set closingChars \<or> True" by simp
  have "endPos \<noteq> pos"
  proof
    assume "endPos = pos"
    with 5(5) have "FindClosingCharacter str pos = Some pos" by simp
    then have "str ! pos \<in> set closingChars"
      by (subst (asm) FindClosingCharacter.simps) (auto split: if_splits dest!: FindClosingCharacter_bounds)
    with 5(2,3) show False
      by (auto simp: closingChars_def is_whitespace_def is_structural_def)
  qed
  with b show ?case by auto
qed

declare LexLoop.simps [simp del]

definition Lex :: "string \<Rightarrow> fault + string list" where
  "Lex str = LexLoop str 0 []"


subsection \<open>Numeric conversions of the standard library\<close>

text \<open>
  \<^verbatim>\<open>std::stoll\<close> and \<^verbatim>\<open>std::stold\<close> return a value or throw \<^verbatim>\<open>std::invalid_argument\<close> (no
  conversion could be performed) or \<^verbatim>\<open>std::out_of_range\<close>.

  The \<^verbatim>\<open>long double\<close> arithmetic of the platform is a parameter of the model: a record with
  \<^verbatim>\<open>std::stold\<close> and with the fixed-point formatter (\<^verbatim>\<open>out.precision(p); out << std::fixed << d\<close>,
  which prints as \<^verbatim>\<open>printf("%.*Lf", p, d)\<close> does). \<open>'ld\<close> is the type of \<^verbatim>\<open>long double\<close> values.
\<close>

datatype 'a conv = Conv_Ok 'a | Invalid_Argument | Out_Of_Range

record 'ld platform =
  stold :: "string \<Rightarrow> 'ld conv"
  put_fixed :: "nat \<Rightarrow> 'ld \<Rightarrow> string"

subsection \<open>Element tree\<close>

text \<open>
  \<^verbatim>\<open>NumberElement\<close>: the tag \<^verbatim>\<open>m_Type\<close> with the one of \<^verbatim>\<open>m_Integer\<close>, \<^verbatim>\<open>m_Decimal\<close> that has been
  set, and \<^verbatim>\<open>m_DecimalPrecision\<close>, an \<^verbatim>\<open>int\<close> initialised to 0.
\<close>

datatype 'ld NumberValue = TYPE_UNDEFINED | TYPE_INTEGER int | TYPE_DECIMAL 'ld

datatype 'ld Element =
    ObjectElement string "'ld Element list"
  | ArrayElement string "'ld Element list"
  | StringElement string string
  | NumberElement string "'ld NumberValue" int
  | BoolElement string bool
  | NullElement string

text \<open>
  \<^verbatim>\<open>std::stoll(str)\<close> is \<^verbatim>\<open>strtoll(str, &end, 10)\<close>: it skips leading white space, reads an
  optional sign and the longest run of decimal digits, and ignores what follows. It throws
  \<^verbatim>\<open>std::invalid_argument\<close> when there is no digit and \<^verbatim>\<open>std::out_of_range\<close> when the value is
  not a \<^verbatim>\<open>long long\<close>.
\<close>

definition isspace :: "char \<Rightarrow> bool" where
  "isspace c \<longleftrightarrow> c \<in> set [CHR '' '', CHR 0x09, CHR 0x0A, CHR 0x0B, CHR 0x0C, CHR 0x0D]"

definition isdigit :: "char \<Rightarrow> bool" where
  "isdigit c \<longleftrightarrow> c \<in> set ''0123456789''"

definition digit_val :: "char \<Rightarrow> nat" where
  "digit_val c = of_char c - 48"

definition digits_val :: "string \<Rightarrow> nat" where
  "digits_val ds = foldl (\<lambda>v c. 10 * v + digit_val c) 0 ds"

definition LLONG_MAX :: int where
  "LLONG_MAX = 9223372036854775807"

definition LLONG_MIN :: int where
  "LLONG_MIN = - 9223372036854775808"

definition stoll :: "string \<Rightarrow> int conv" where
  "stoll str =
     (let s = dropWhile isspace str;
          neg = (s \<noteq> [] \<and> hd s = CHR ''-'');
          s' = (if s \<noteq> [] \<and> (hd s = CHR ''-'' \<or> hd s = CHR ''+'') then tl s else s);
          ds = takeWhile isdigit s'
      in if ds = [] then Invalid_Argument
         else (let v = (if neg then - int (digits_val ds) else int (digits_val ds))
               in if v < LLONG_MIN \<or> LLONG_MAX < v then Out_Of_Range else Conv_Ok v))"

subsection \<open>Parser helpers\<close>

text \<open>\<^verbatim>\<open>std::toupper\<close> in the "C" locale, \<^verbatim>\<open>CharCompare\<close> and \<^verbatim>\<open>EqualIgnoreCase\<close>.\<close>

definition toupper :: "char \<Rightarrow> char" where
  "toupper c =
     (case map_of (zip ''abcdefghijklmnopqrstuvwxyz'' ''ABCDEFGHIJKLMNOPQRSTUVWXYZ'') c of
        Some u \<Rightarrow> u
      | None \<Rightarrow> c)"

definition CharCompare :: "char \<Rightarrow> char \<Rightarrow> bool" where
  "CharCompare c1 c2 \<longleftrightarrow> c1 = c2 \<or> toupper c1 = toupper c2"

definition EqualIgnoreCase :: "string \<Rightarrow> string \<Rightarrow> bool" where
  "EqualIgnoreCase s1 s2 \<longleftrightarrow> length s1 = length s2 \<and> list_all2 CharCompare s1 s2"

definition validChars :: string where
  "validChars = ''1234567890+-.eE''"

definition IsValidNumber :: "string \<Rightarrow> bool" where
  "IsValidNumber tok \<longleftrightarrow> list_all (\<lambda>c1. c1 \<in> set validChars) tok"

definition IsValidDecimal :: "string \<Rightarrow> bool" where
  "IsValidDecimal tok \<longleftrightarrow> list_ex (\<lambda>c. c = CHR ''.'') tok"

text \<open>\<^verbatim>\<open>tok.find_last_of(c)\<close>: the last position of \<open>c\<close>, \<open>None\<close> for \<^verbatim>\<open>npos\<close>.\<close>

fun find_last_of :: "string \<Rightarrow> char \<Rightarrow> nat option" where
  "find_last_of [] c = None"
| "find_last_of (x # xs) c =
     (case find_last_of xs c of
        Some i \<Rightarrow> Some (Suc i)
      | None \<Rightarrow> if x = c then Some 0 else None)"

subsection \<open>Productions\<close>

text \<open>
  Each production takes the iterator \<open>it\<close> (or \<open>begin\<close>) as a token list and returns the
  element it built with the iterator it returns. \<^verbatim>\<open>ParseStringElement\<close> and
  \<^verbatim>\<open>ParseNumberElement\<close> dereference \<open>it\<close> without a test.
\<close>

fun ParseStringElement :: "string list \<Rightarrow> string \<Rightarrow> fault + ('ld Element \<times> string list)" where
  "ParseStringElement [] key = Inl Undefined"
| "ParseStringElement (tok # rest) key =
     (if length tok > 2 \<and> hd tok = CHR 0x22 \<and> last tok = CHR 0x22
      then Inr (StringElement key (substr tok 1 (length tok - 2)), tok # rest)
      else Inl (Throw E_PARSE_ERR_INVALID_STRING))"

text \<open>
  \<^verbatim>\<open>SetDecimalPrecision(int)\<close> receives the \<^verbatim>\<open>size_t\<close> value \<^verbatim>\<open>it->length() - pos - 1\<close>: the
  conversion keeps the low 32 bits, read as a two's complement \<^verbatim>\<open>int\<close>.
\<close>

definition narrow_int :: "nat \<Rightarrow> int" where
  "narrow_int n = (int n + 2147483648) mod 4294967296 - 2147483648"

fun ParseNumberElement :: "'ld platform \<Rightarrow> string list \<Rightarrow> string \<Rightarrow> fault + ('ld Element \<times> string list)" where
  "ParseNumberElement P [] key = Inl Undefined"
| "ParseNumberElement P (tok # rest) key =
     (if IsValidDecimal tok then
        (case stold P tok of
           Invalid_Argument \<Rightarrow> Inl (Throw E_PARSE_ERR_INVALID_NUMBER)
         | Out_Of_Range \<Rightarrow> Inl Uncaught_out_of_range
         | Conv_Ok d \<Rightarrow>
             (case find_last_of tok (CHR ''.'') of
                Some pos \<Rightarrow>
                  Inr (NumberElement key (TYPE_DECIMAL d) (narrow_int (length tok - pos - 1)), tok # rest)
              | None \<Rightarrow> Inr (NumberElement key (TYPE_DECIMAL d) 0, tok # rest)))
      else
        (case stoll tok of
           Invalid_Argument \<Rightarrow> Inl (Throw E_PARSE_ERR_INVALID_NUMBER)
         | Out_Of_Range \<Rightarrow> Inl Uncaught_out_of_range
         | Conv_Ok n \<Rightarrow> Inr (NumberElement key (TYPE_INTEGER n) 0, tok # rest)))"

fun ParseKey :: "string list \<Rightarrow> fault + (string \<times> string list)" where
  "ParseKey [] = Inl (Throw E_INVALID_JSON_KEY_STRING)"
| "ParseKey (tok # rest) =
     (if length tok > 2 \<and> hd tok = CHR 0x22 \<and> last tok = CHR 0x22 then
        (case rest of
           [] \<Rightarrow> Inl (Throw E_INVALID_JSON_KEY_COLON)
         | c # rest' \<Rightarrow>
             if c \<noteq> '':'' then Inl (Throw E_INVALID_JSON_KEY_COLON)
             else Inr (substr tok 1 (length tok - 2), rest'))
      else Inl (Throw E_INVALID_JSON_KEY_STRING))"

declare ParseStringElement.simps [simp del] ParseNumberElement.simps [simp del]
  ParseKey.simps [simp del]

text \<open>
  \<^verbatim>\<open>Parse\<close> and the two bracket productions are mutually recursive. In \<^verbatim>\<open>Parse\<close>, every branch
  of the body of the \<^verbatim>\<open>for\<close> loop returns or throws (each production sets its output pointer
  before it returns), so the loop is left in its first round: with \<open>begin = end\<close> it returns
  \<open>end\<close> and leaves \<open>pOutElement\<close> null (\<open>None\<close>).

  \<open>ParseObjectLoop\<close> is the \<^verbatim>\<open>while (++it != end && *it != "}")\<close> loop of
  \<^verbatim>\<open>ParseObjectElement\<close>: its argument is the iterator before the increment of the loop
  condition, with the children added so far; it returns the iterator at which the loop was
  left. The test \<^verbatim>\<open>*it != "}"\<close> after the loop and the tests \<^verbatim>\<open>*next(it)\<close> dereference without
  comparing to \<open>end\<close>; \<^verbatim>\<open>pChild->SetParent\<close> dereferences the pointer \<^verbatim>\<open>Parse\<close> has set.
  \<open>acc\<close> is the member \<^verbatim>\<open>m_bAcceptCaseInsensitiveLiterals\<close>.
\<close>

function Parse :: "'ld platform \<Rightarrow> bool \<Rightarrow> string list \<Rightarrow> string \<Rightarrow> fault + ('ld Element option \<times> string list)"
  and ParseObjectElement :: "'ld platform \<Rightarrow> bool \<Rightarrow> string list \<Rightarrow> string \<Rightarrow> fault + ('ld Element \<times> string list)"
  and ParseObjectLoop :: "'ld platform \<Rightarrow> bool \<Rightarrow> string list \<Rightarrow> 'ld Element list \<Rightarrow> fault + ('ld Element list \<times> string list)"
  and ParseArrayElement :: "'ld platform \<Rightarrow> bool \<Rightarrow> string list \<Rightarrow> string \<Rightarrow> fault + ('ld Element \<times> string list)"
  and ParseArrayLoop :: "'ld platform \<Rightarrow> bool \<Rightarrow> string list \<Rightarrow> 'ld Element list \<Rightarrow> fault + ('ld Element list \<times> string list)"
where
  "Parse P acc [] key = Inr (None, [])"
| "Parse P acc (tok # rest) key =
     (if tok = ''{'' then
        (case ParseObjectElement P acc (tok # rest) key of
           Inl f \<Rightarrow> Inl f
         | Inr (pObj, it) \<Rightarrow> Inr (Some pObj, it))
      else if tok = ''['' then
        (case ParseArrayElement P acc (tok # rest) key of
           Inl f \<Rightarrow> Inl f
         | Inr (pArr, it) \<Rightarrow> Inr (Some pArr, it))
      else if length tok > 0 \<and> hd tok = CHR 0x22 then
        (case ParseStringElement (tok # rest) key of
           Inl f \<Rightarrow> Inl f
         | Inr (pStr, it) \<Rightarrow> Inr (Some pStr, it))
      else if EqualIgnoreCase tok ''true'' \<or> EqualIgnoreCase tok ''false'' then
        (if \<not> acc \<and> (tok \<noteq> ''true'' \<and> tok \<noteq> ''false'')
         then Inl (Throw E_PARSE_ERROR_INVALID_LITERAL_CASE)
         else Inr (Some (BoolElement key (hd tok = CHR ''t'')), tok # rest))
      else if EqualIgnoreCase tok ''null'' then
        (if \<not> acc \<and> tok \<noteq> ''null''
         then Inl (Throw E_PARSE_ERROR_INVALID_LITERAL_CASE)
         else Inr (Some (NullElement key), tok # rest))
      else if IsValidNumber tok then
        (case ParseNumberElement P (tok # rest) key of
           Inl f \<Rightarrow> Inl f
         | Inr (pNumber, it) \<Rightarrow> Inr (Some pNumber, it))
      else Inl (Throw E_PARSE_ERR_UNKNOWN_ELEMENT))"
| "ParseObjectElement P acc [] key = Inl Undefined"
| "ParseObjectElement P acc (tok # rest) key =
     (if tok \<noteq> ''{'' then Inl (Throw E_PARSE_ERR_OBJECT_OPENING_BRACKET)
      else
        (case ParseObjectLoop P acc (tok # rest) [] of
           Inl f \<Rightarrow> Inl f
         | Inr (children, it) \<Rightarrow>
             (case it of
                [] \<Rightarrow> Inl Undefined
              | t # _ \<Rightarrow>
                  if t \<noteq> ''}'' then Inl (Throw E_PARSE_ERR_OBJECT_CLOSING_BRACKET)
                  else Inr (ObjectElement key children, it))))"
| "ParseObjectLoop P acc [] children = Inl Undefined"
| "ParseObjectLoop P acc (prev # it) children =
     (case it of
        [] \<Rightarrow> Inr (children, it)
      | t # _ \<Rightarrow>
          if t = ''}'' then Inr (children, it)
          else if t \<noteq> '','' then
            (case ParseKey it of
               Inl f \<Rightarrow> Inl f
             | Inr (childKey, it1) \<Rightarrow>
                 (case Parse P acc it1 childKey of
                    Inl f \<Rightarrow> Inl f
                  | Inr (pChild, it2) \<Rightarrow>
                      (case pChild of
                         None \<Rightarrow> Inl Undefined
                       | Some child \<Rightarrow>
                           (case it2 of
                              [] \<Rightarrow> Inl Undefined
                            | _ # nxt \<Rightarrow>
                                (case nxt of
                                   [] \<Rightarrow> Inl Undefined
                                 | n # _ \<Rightarrow>
                                     if n \<noteq> '','' \<and> n \<noteq> ''}''
                                     then Inl (Throw E_PARSE_ERR_INVALID_OBJECT)
                                     else ParseObjectLoop P acc it2 (children @ [child]))))))
          else ParseObjectLoop P acc it children)"
| "ParseArrayElement P acc [] key = Inl Undefined"
| "ParseArrayElement P acc (tok # rest) key =
     (if tok \<noteq> ''['' then Inl (Throw E_PARSE_ERR_ARRAY_OPENING_BRACKET)
      else
        (case ParseArrayLoop P acc (tok # rest) [] of
           Inl f \<Rightarrow> Inl f
         | Inr (elements, it) \<Rightarrow>
             (case it of
                [] \<Rightarrow> Inl Undefined
              | t # _ \<Rightarrow>
                  if t \<noteq> '']'' then Inl (Throw E_PARSE_ERR_ARRAY_CLOSING_BRACKET)
                  else Inr (ArrayElement key elements, it))))"
| "ParseArrayLoop P acc [] elements = Inl Undefined"
| "ParseArrayLoop P acc (prev # it) elements =
     (case it of
        [] \<Rightarrow> Inr (elements, it)
      | t # _ \<Rightarrow>
          if t = '']'' then Inr (elements, it)
          else if t \<noteq> '','' then
            (case Parse P acc it [] of
               Inl f \<Rightarrow> Inl f
             | Inr (pItem, it2) \<Rightarrow>
                 (case pItem of
                    None \<Rightarrow> Inl Undefined
                  | Some item \<Rightarrow>
                      (case it2 of
                         [] \<Rightarrow> Inl Undefined
                       | _ # nxt \<Rightarrow>
                           (case nxt of
                              [] \<Rightarrow> Inl Undefined
                            | n # _ \<Rightarrow>
                                if n \<noteq> '','' \<and> n \<noteq> '']''
                                then Inl (Throw E_PARSE_ERR_INVALID_ARRAY)
                                else ParseArrayLoop P acc it2 (elements @ [item])))))
          else ParseArrayLoop P acc it elements)"
  by pat_completeness auto

text \<open>Termination: no production returns an iterator before the one it was given.\<close>

lemma ParseKey_length: "ParseKey it = Inr (k, it1) \<Longrightarrow> Suc (Suc (length it1)) = length it"
  by (cases it) (auto simp: ParseKey.simps split: if_splits list.splits)

lemma ParseStringElement_it: "ParseStringElement it key = Inr (e, it') \<Longrightarrow> it' = it"
  by (cases it) (auto simp: ParseStringElement.simps split: if_splits)

lemma ParseNumberElement_it: "ParseNumberElement P it key = Inr (e, it') \<Longrightarrow> it' = it"
  by (cases it) (auto simp: ParseNumberElement.simps split: if_splits conv.splits option.splits)

lemma Parse_length_dom:
  "Parse_ParseObjectElement_ParseObjectLoop_ParseArrayElement_ParseArrayLoop_dom (Inl (Inl (P, acc, ts, key))) \<Longrightarrow>
     (\<forall>e it. Parse P acc ts key = Inr (e, it) \<longrightarrow> length it \<le> length ts)"
  "Parse_ParseObjectElement_ParseObjectLoop_ParseArrayElement_ParseArrayLoop_dom (Inl (Inr (P, acc, ts, key))) \<Longrightarrow>
     (\<forall>e it. ParseObjectElement P acc ts key = Inr (e, it) \<longrightarrow> length it \<le> length ts)"
  "Parse_ParseObjectElement_ParseObjectLoop_ParseArrayElement_ParseArrayLoop_dom (Inr (Inl (P, acc, ts, kids))) \<Longrightarrow>
     (\<forall>e it. ParseObjectLoop P acc ts kids = Inr (e, it) \<longrightarrow> length it \<le> length ts)"
  "Parse_ParseObjectElement_ParseObjectLoop_ParseArrayElement_ParseArrayLoop_dom (Inr (Inr (Inl (P, acc, ts, key)))) \<Longrightarrow>
     (\<forall>e it. ParseArrayElement P acc ts key = Inr (e, it) \<longrightarrow> length it \<le> length ts)"
  "Parse_ParseObjectElement_ParseObjectLoop_ParseArrayElement_ParseArrayLoop_dom (Inr (Inr (Inr (P, acc, ts, kids)))) \<Longrightarrow>
     (\<forall>e it. ParseArrayLoop P acc ts kids = Inr (e, it) \<longrightarrow> length it \<le> length ts)"
proof (induct rule: Parse_ParseObjectElement_ParseObjectLoop_ParseArrayElement_ParseArrayLoop.pinduct)
  case (1 P acc key)
  then show ?case by (simp add: Parse.psimps)
next
  case (2 P acc tok rest key)
  show ?case
  proof (intro allI impI)
    fix e it
    assume r: "Parse P acc (tok # rest) key = Inr (e, it)"
    note ps = Parse.psimps(2)[OF 2(1)]
    show "length it \<le> length (tok # rest)"
    proof (cases "tok = ''{''")
      case True
      with r[unfolded ps] obtain pObj where "ParseObjectElement P acc (tok # rest) key = Inr (pObj, it)"
        by (auto split: sum.splits prod.splits)
      with 2(2)[OF True] show ?thesis by blast
    next
      case nobj: False
      show ?thesis
      proof (cases "tok = ''[''")
        case True
        with r[unfolded ps] nobj obtain pArr where "ParseArrayElement P acc (tok # rest) key = Inr (pArr, it)"
          by (auto split: sum.splits prod.splits)
        with 2(3)[OF nobj True] show ?thesis by blast
      next
        case False
        have "it = tok # rest"
          using r unfolding ps if_not_P[OF nobj] if_not_P[OF False]
          by (simp split: if_split_asm sum.split_asm prod.split_asm
                add: ParseStringElement_it ParseNumberElement_it)
        then show ?thesis by simp
      qed
    qed
  qed
next
  case (3 P acc key)
  then show ?case by (simp add: ParseObjectElement.psimps)
next
  case (4 P acc tok rest key)
  show ?case
    using 4(2)
    by (auto simp: ParseObjectElement.psimps(2)[OF 4(1)] split: sum.splits prod.splits if_splits list.splits)
next
  case (5 P acc children)
  then show ?case by (simp add: ParseObjectLoop.psimps)
next
  case (6 P acc prev it children)
  show ?case
  proof (intro allI impI)
    fix e it'
    assume r: "ParseObjectLoop P acc (prev # it) children = Inr (e, it')"
    show "length it' \<le> length (prev # it)"
    proof (cases it)
      case Nil
      with r[unfolded ParseObjectLoop.psimps(2)[OF 6(1)]] show ?thesis by simp
    next
      case (Cons t it0)
      show ?thesis
      proof (cases "t = ''}''")
        case True
        with r[unfolded ParseObjectLoop.psimps(2)[OF 6(1)]] Cons show ?thesis by simp
      next
        case nclose: False
        show ?thesis
        proof (cases "t = '',''")
          case True
          with r[unfolded ParseObjectLoop.psimps(2)[OF 6(1)]] Cons nclose have "ParseObjectLoop P acc it children = Inr (e, it')"
            by simp
          with 6(4)[OF Cons nclose] True show ?thesis by auto
        next
          case ncomma: False
          from r[unfolded ParseObjectLoop.psimps(2)[OF 6(1)]] Cons nclose ncomma obtain childKey it1 child it2 where
            k: "ParseKey it = Inr (childKey, it1)" and
            p: "Parse P acc it1 childKey = Inr (Some child, it2)" and
            l: "ParseObjectLoop P acc it2 (children @ [child]) = Inr (e, it')" and
            n: "\<exists>a b c. it2 = a # b # c \<and> \<not> (b \<noteq> '','' \<and> b \<noteq> ''}'')"
            by (auto
                split: sum.splits prod.splits option.splits list.splits if_splits)
          from n obtain a b c where it2: "it2 = a # b # c" and b: "\<not> (b \<noteq> '','' \<and> b \<noteq> ''}'')" by blast
          have 1: "length it2 \<le> length it1"
            using 6(2)[OF Cons nclose ncomma k refl] p by auto
          have 2: "length it' \<le> length it2"
            using 6(3)[OF Cons nclose ncomma k refl p refl refl it2 refl b] l by auto
          from ParseKey_length[OF k] 1 2 show ?thesis by simp
        qed
      qed
    qed
  qed
next
  case (7 P acc key)
  then show ?case by (simp add: ParseArrayElement.psimps)
next
  case (8 P acc tok rest key)
  show ?case
    using 8(2)
    by (auto simp: ParseArrayElement.psimps(2)[OF 8(1)] split: sum.splits prod.splits if_splits list.splits)
next
  case (9 P acc elements)
  then show ?case by (simp add: ParseArrayLoop.psimps)
next
  case (10 P acc prev it elements)
  show ?case
  proof (intro allI impI)
    fix e it'
    assume r: "ParseArrayLoop P acc (prev # it) elements = Inr (e, it')"
    show "length it' \<le> length (prev # it)"
    proof (cases it)
      case Nil
      with r[unfolded ParseArrayLoop.psimps(2)[OF 10(1)]] show ?thesis by simp
    next
      case (Cons t it0)
      show ?thesis
      proof (cases "t = '']''")
        case True
        with r[unfolded ParseArrayLoop.psimps(2)[OF 10(1)]] Cons show ?thesis by simp
      next
        case nclose: False
        show ?thesis
        proof (cases "t = '',''")
          case True
          with r[unfolded ParseArrayLoop.psimps(2)[OF 10(1)]] Cons nclose have "ParseArrayLoop P acc it elements = Inr (e, it')"
            by simp
          with 10(4)[OF Cons nclose] True show ?thesis by auto
        next
          case ncomma: False
          from r[unfolded ParseArrayLoop.psimps(2)[OF 10(1)]] Cons nclose ncomma obtain item it2 where
            p: "Parse P acc it [] = Inr (Some item, it2)" and
            l: "ParseArrayLoop P acc it2 (elements @ [item]) = Inr (e, it')" and
            n: "\<exists>a b c. it2 = a # b # c \<and> \<not> (b \<noteq> '','' \<and> b \<noteq> '']'')"
            by (auto
                split: sum.splits prod.splits option.splits list.splits if_splits)
          from n obtain a b c where it2: "it2 = a # b # c" and b: "\<not> (b \<noteq> '','' \<and> b \<noteq> '']'')" by blast
          have 1: "length it2 \<le> length it"
            using 10(2)[OF Cons nclose ncomma] p by auto
          have 2: "length it' \<le> length it2"
            using 10(3)[OF Cons nclose ncomma p refl refl it2 refl b] l by auto
          from 1 2 show ?thesis by simp
        qed
      qed
    qed
  qed
qed



termination Parse
proof (relation "measure (\<lambda>x. case x of
          Inl (Inl (P, acc, ts, key)) \<Rightarrow> 3 * length ts + 2
        | Inl (Inr (P, acc, ts, key)) \<Rightarrow> 3 * length ts + 1
        | Inr (Inl (P, acc, ts, kids)) \<Rightarrow> 3 * length ts
        | Inr (Inr (Inl (P, acc, ts, key))) \<Rightarrow> 3 * length ts + 1
        | Inr (Inr (Inr (P, acc, ts, kids))) \<Rightarrow> 3 * length ts)", goal_cases)
  case 1 show ?case by simp
next
  case 2 then show ?case by simp
next
  case 3 then show ?case by simp
next
  case 4 then show ?case by simp
next
  case (5 P acc prev it children x21 x22 b x y)
  from 5(4,5) have "ParseKey it = Inr (x, y)" by simp
  from ParseKey_length[OF this] show ?case by simp
next
  case (6 P acc prev it children x21 x22 b x y ba xa ya x2 x21a x22a x21b x22b)
  from 6(4,5) have "ParseKey it = Inr (x, y)" by simp
  note k = ParseKey_length[OF this]
  from 6(6,7) have "Parse P acc y x = Inr (xa, ya)" by simp
  with Parse_length_dom(1)[OF 6(12)] have "length ya \<le> length y" by blast
  with k show ?case by simp
next
  case 7 then show ?case by simp
next
  case 8 then show ?case by simp
next
  case 9 then show ?case by simp
next
  case (10 P acc prev it elements x21 x22 b x y x2 x21a x22a x21b x22b)
  from 10(4,5) have "Parse P acc it [] = Inr (x, y)" by simp
  with Parse_length_dom(1)[OF 10(10)] have "length y \<le> length it" by blast
  then show ?case by simp
next
  case 11 then show ?case by simp
qed


declare Parse.simps [simp del] ParseObjectElement.simps [simp del] ParseObjectLoop.simps [simp del]
  ParseArrayElement.simps [simp del] ParseArrayLoop.simps [simp del]

subsection \<open>Serializer\<close>

text \<open>\<^verbatim>\<open>std::to_string(long long)\<close>; \<^verbatim>\<open>std::to_string(long double)\<close> prints as \<^verbatim>\<open>"%Lf"\<close>, that is
  in fixed-point notation with 6 fractional digits.\<close>

definition digit_char :: "nat \<Rightarrow> char" where
  "digit_char d = ''0123456789'' ! d"

function nat_digits :: "nat \<Rightarrow> string" where
  "nat_digits n = (if n < 10 then [digit_char n] else nat_digits (n div 10) @ [digit_char (n mod 10)])"
  by pat_completeness auto
termination
  by (relation "measure (\<lambda>n. n)") auto

declare nat_digits.simps [simp del]






subsection \<open>Document\<close>

text \<open>
  \<open>ParseDocument\<close> is the body of the \<^verbatim>\<open>try\<close> block of the constructor \<^verbatim>\<open>JSON::JSON\<close>, which
  sets \<^verbatim>\<open>m_bAcceptCaseInsensitiveLiterals = true\<close> before. \<open>JSON_JSON\<close> is the constructor:
  \<open>pErr\<close> says whether the caller passed an error slot; the result is the constructed
  object with the content of the slot, or the exception that leaves the constructor.
  \<^verbatim>\<open>catch (Error e)\<close> catches the thrown error codes only.
\<close>

fun IsObject :: "'ld Element \<Rightarrow> bool" where
  "IsObject (ObjectElement key children) = True"
| "IsObject _ = False"

definition ParseDocument :: "'ld platform \<Rightarrow> string \<Rightarrow> fault + 'ld Element" where
  "ParseDocument P json =
     (case Lex json of
        Inl f \<Rightarrow> Inl f
      | Inr tokens \<Rightarrow>
          (case Parse P True tokens [] of
             Inl f \<Rightarrow> Inl f
           | Inr (pRoot, it) \<Rightarrow>
               (case pRoot of
                  None \<Rightarrow> Inl (Throw E_INVALID_JSON)
                | Some root \<Rightarrow> if IsObject root then Inr root else Inl (Throw E_INVALID_JSON))))"

record 'ld JSON =
  m_pRootObject :: "'ld Element option"
  m_bAcceptCaseInsensitiveLiterals :: bool

datatype 'ld construction = Constructed "'ld JSON" "Error option" | Propagated fault

definition JSON_JSON :: "'ld platform \<Rightarrow> string \<Rightarrow> bool \<Rightarrow> 'ld construction" where
  "JSON_JSON P json pErr =
     (case ParseDocument P json of
        Inr root \<Rightarrow>
          Constructed \<lparr>m_pRootObject = Some root, m_bAcceptCaseInsensitiveLiterals = True\<rparr>
            (if pErr then Some E_NO_ERROR else None)
      | Inl (Throw e) \<Rightarrow>
          if pErr
          then Constructed \<lparr>m_pRootObject = None, m_bAcceptCaseInsensitiveLiterals = True\<rparr> (Some e)
          else Propagated (Throw e)
      | Inl f \<Rightarrow> Propagated f)"

definition GetRootObject :: "'ld JSON \<Rightarrow> 'ld Element option" where
  "GetRootObject j = m_pRootObject j"

subsection \<open>A sample platform with exact decimal arithmetic\<close>

text \<open>
  One instance of the platform record, for the witnesses of theorems that hold for every
  platform. Its values are exact decimals: sign, mantissa and decimal exponent.
  \<open>stold_ref\<close> reads the decimal floating-point syntax of \<^verbatim>\<open>strtold\<close> (white space, sign,
  digits with an optional point, an optional exponent part that counts only with a digit)
  and \<open>put_fixed_ref\<close> rounds to \<open>p\<close> fractional digits, ties to even. It is not the
  \<^verbatim>\<open>long double\<close> of a compiler, which rounds each value to a binary mantissa and has a
  bounded exponent; nothing is concluded from it about the program's own arithmetic.
\<close>

datatype decimal = Decimal bool nat int

definition stold_ref :: "string \<Rightarrow> decimal conv" where
  "stold_ref str =
     (let s = dropWhile isspace str;
          neg = (s \<noteq> [] \<and> hd s = CHR ''-'');
          s1 = (if s \<noteq> [] \<and> (hd s = CHR ''-'' \<or> hd s = CHR ''+'') then tl s else s);
          ip = takeWhile isdigit s1;
          r1 = dropWhile isdigit s1;
          fp = (if r1 \<noteq> [] \<and> hd r1 = CHR ''.'' then takeWhile isdigit (tl r1) else []);
          r2 = (if r1 \<noteq> [] \<and> hd r1 = CHR ''.'' then dropWhile isdigit (tl r1) else r1);
          r3 = (if r2 \<noteq> [] \<and> (hd r2 = CHR ''e'' \<or> hd r2 = CHR ''E'') then tl r2 else []);
          eneg = (r3 \<noteq> [] \<and> hd r3 = CHR ''-'');
          r4 = (if r3 \<noteq> [] \<and> (hd r3 = CHR ''-'' \<or> hd r3 = CHR ''+'') then tl r3 else r3);
          ed = takeWhile isdigit r4;
          ex = (if eneg then - int (digits_val ed) else int (digits_val ed))
      in if ip = [] \<and> fp = [] then Invalid_Argument
         else Conv_Ok (Decimal neg (digits_val (ip @ fp)) (ex - int (length fp))))"

definition round_half_even :: "nat \<Rightarrow> nat \<Rightarrow> nat" where
  "round_half_even m d =
     (let q = m div d; r = m mod d
      in if 2 * r < d then q
         else if d < 2 * r then q + 1
         else if even q then q else q + 1)"

definition scaled_mantissa :: "nat \<Rightarrow> nat \<Rightarrow> int \<Rightarrow> nat" where
  "scaled_mantissa p m e =
     (if 0 \<le> e + int p then m * 10 ^ nat (e + int p)
      else round_half_even m (10 ^ nat (- (e + int p))))"

function zero_pad :: "nat \<Rightarrow> string \<Rightarrow> string" where
  "zero_pad p ds = (if length ds < p then zero_pad p (CHR ''0'' # ds) else ds)"
  by pat_completeness auto
termination
  by (relation "measure (\<lambda>(p, ds). p - length ds)") auto

declare zero_pad.simps [simp del]

fun put_fixed_ref :: "nat \<Rightarrow> decimal \<Rightarrow> string" where
  "put_fixed_ref p (Decimal neg m e) =
     (if neg then ''-'' else []) @ nat_digits (scaled_mantissa p m e div 10 ^ p) @
     (if p = 0 then [] else ''.'' @ zero_pad p (nat_digits (scaled_mantissa p m e mod 10 ^ p)))"

definition ref_platform :: "decimal platform" where
  "ref_platform = \<lparr>stold = stold_ref, put_fixed = put_fixed_ref\<rparr>"


section \<open>Notions used to state the properties\<close>

text \<open>\<^verbatim>\<open>m_Key\<close> of an element.\<close>

fun key_of :: "'ld Element \<Rightarrow> string" where
  "key_of (ObjectElement key children) = key"
| "key_of (ArrayElement key elements) = key"
| "key_of (StringElement key v) = key"
| "key_of (NumberElement key v prec) = key"
| "key_of (BoolElement key b) = key"
| "key_of (NullElement key) = key"

text \<open>
  The bracket that closes the innermost open one: \<open>matching_close d ts\<close> is the iterator
  at the first closing bracket of \<open>ts\<close> that is not opened within \<open>ts\<close>, after \<open>d\<close> further
  ones.
\<close>

fun matching_close :: "nat \<Rightarrow> string list \<Rightarrow> string list option" where
  "matching_close d [] = None"
| "matching_close d (t # ts) =
     (if t = ''{'' \<or> t = ''['' then matching_close (Suc d) ts
      else if t = ''}'' \<or> t = '']'' then (case d of 0 \<Rightarrow> Some (t # ts) | Suc d' \<Rightarrow> matching_close d' ts)
      else matching_close d ts)"

text \<open>
  \<open>wf_elem\<close>: what every parsed tree satisfies. \<open>keyed_iff_member\<close>: the members of an
  Object have a key and the items of an Array have none. \<open>no_empty_text\<close>: no String value
  and no member key is empty.
\<close>

fun wf_elem :: "'ld Element \<Rightarrow> bool" where
  "wf_elem (ObjectElement key children) = (\<forall>c \<in> set children. key_of c \<noteq> [] \<and> wf_elem c)"
| "wf_elem (ArrayElement key elements) = (\<forall>c \<in> set elements. key_of c = [] \<and> wf_elem c)"
| "wf_elem (StringElement key v) = (v \<noteq> [])"
| "wf_elem (NumberElement key v prec) =
     (case v of
        TYPE_UNDEFINED \<Rightarrow> False
      | TYPE_INTEGER n \<Rightarrow> LLONG_MIN \<le> n \<and> n \<le> LLONG_MAX
      | TYPE_DECIMAL d \<Rightarrow> True)"
| "wf_elem (BoolElement key b) = True"
| "wf_elem (NullElement key) = True"

fun keyed_iff_member :: "'ld Element \<Rightarrow> bool" where
  "keyed_iff_member (ObjectElement key children) =
     (\<forall>c \<in> set children. key_of c \<noteq> [] \<and> keyed_iff_member c)"
| "keyed_iff_member (ArrayElement key elements) =
     (\<forall>c \<in> set elements. key_of c = [] \<and> keyed_iff_member c)"
| "keyed_iff_member _ = True"

fun no_empty_text :: "'ld Element \<Rightarrow> bool" where
  "no_empty_text (ObjectElement key children) =
     (\<forall>c \<in> set children. key_of c \<noteq> [] \<and> no_empty_text c)"
| "no_empty_text (ArrayElement key elements) = (\<forall>c \<in> set elements. no_empty_text c)"
| "no_empty_text (StringElement key v) = (v \<noteq> [])"
| "no_empty_text _ = True"






definition lex_cons :: "string list \<Rightarrow> fault + string list \<Rightarrow> fault + string list" where
  "lex_cons toks res = (case res of Inl f \<Rightarrow> Inl f | Inr rt \<Rightarrow> Inr (toks @ rt))"



















section \<open>Evaluation on concrete inputs\<close>

lemmas lex_eval = Lex_def LexLoop.simps FindClosingCharacter.simps FindClosingQuotationMark.simps
  find_char.simps is_whitespace_def is_structural_def closingChars_def substr_def

lemmas parse_eval = Parse.simps ParseObjectElement.simps ParseObjectLoop.simps
  ParseArrayElement.simps ParseArrayLoop.simps ParseStringElement.simps ParseNumberElement.simps
  ParseKey.simps EqualIgnoreCase_def CharCompare_def toupper_def
  IsValidNumber_def IsValidDecimal_def validChars_def stoll_def isspace_def isdigit_def digits_val_def
  digit_val_def LLONG_MAX_def LLONG_MIN_def

section \<open>The scan for the end of a bare value\<close>

lemma FindClosingCharacter_Some_iff:
  "FindClosingCharacter str pos = Some e \<longleftrightarrow>
     pos \<le> e \<and> e < length str \<and> str ! e \<in> set closingChars \<and>
     (\<forall>i. pos \<le> i \<and> i < e \<longrightarrow> str ! i \<notin> set closingChars)"
proof (induction str pos rule: FindClosingCharacter.induct)
  case (1 str pos)
  show ?case
  proof (cases "pos < length str")
    case False
    then show ?thesis by (subst FindClosingCharacter.simps) auto
  next
    case inb: True
    show ?thesis
    proof (cases "str ! pos \<in> set closingChars")
      case True
      have "FindClosingCharacter str pos = Some pos"
        using inb True by (subst FindClosingCharacter.simps) simp
      moreover have "(pos \<le> e \<and> e < length str \<and> str ! e \<in> set closingChars \<and>
         (\<forall>i. pos \<le> i \<and> i < e \<longrightarrow> str ! i \<notin> set closingChars)) \<longleftrightarrow> e = pos"
      proof
        assume a: "pos \<le> e \<and> e < length str \<and> str ! e \<in> set closingChars \<and>
         (\<forall>i. pos \<le> i \<and> i < e \<longrightarrow> str ! i \<notin> set closingChars)"
        show "e = pos"
        proof (rule ccontr)
          assume "e \<noteq> pos"
          with a have "pos \<le> pos \<and> pos < e" by simp
          with a have "str ! pos \<notin> set closingChars" by blast
          with True show False by simp
        qed
      next
        assume "e = pos"
        with inb True show "pos \<le> e \<and> e < length str \<and> str ! e \<in> set closingChars \<and>
         (\<forall>i. pos \<le> i \<and> i < e \<longrightarrow> str ! i \<notin> set closingChars)" by auto
      qed
      ultimately show ?thesis by auto
    next
      case False
      have eq: "FindClosingCharacter str pos = FindClosingCharacter str (pos + 1)"
        using inb False by (subst FindClosingCharacter.simps) simp
      have "(pos \<le> e \<and> e < length str \<and> str ! e \<in> set closingChars \<and>
         (\<forall>i. pos \<le> i \<and> i < e \<longrightarrow> str ! i \<notin> set closingChars)) \<longleftrightarrow>
         (pos + 1 \<le> e \<and> e < length str \<and> str ! e \<in> set closingChars \<and>
         (\<forall>i. pos + 1 \<le> i \<and> i < e \<longrightarrow> str ! i \<notin> set closingChars))"
        using False
        by (metis Suc_eq_plus1 Suc_leI le_neq_implies_less Suc_leD not_less_eq_eq)
      with eq 1[OF inb False] show ?thesis by simp
    qed
  qed
qed

lemma FindClosingCharacter_None_iff:
  "FindClosingCharacter str pos = None \<longleftrightarrow>
     (\<forall>i. pos \<le> i \<and> i < length str \<longrightarrow> str ! i \<notin> set closingChars)"
proof (induction str pos rule: FindClosingCharacter.induct)
  case (1 str pos)
  show ?case
  proof (cases "pos < length str")
    case False
    then show ?thesis by (subst FindClosingCharacter.simps) auto
  next
    case inb: True
    show ?thesis
    proof (cases "str ! pos \<in> set closingChars")
      case True
      have "FindClosingCharacter str pos = Some pos"
        using inb True by (subst FindClosingCharacter.simps) simp
      with inb True show ?thesis by auto
    next
      case False
      have eq: "FindClosingCharacter str pos = FindClosingCharacter str (pos + 1)"
        using inb False by (subst FindClosingCharacter.simps) simp
      have "(\<forall>i. pos \<le> i \<and> i < length str \<longrightarrow> str ! i \<notin> set closingChars) \<longleftrightarrow>
            (\<forall>i. pos + 1 \<le> i \<and> i < length str \<longrightarrow> str ! i \<notin> set closingChars)"
        using False
        by (metis Suc_eq_plus1 Suc_leI le_neq_implies_less Suc_leD)
      with eq 1[OF inb False] show ?thesis by simp
    qed
  qed
qed

lemma closingChars_iff:
  "c \<in> set closingChars \<longleftrightarrow> is_whitespace c \<or> (is_structural c \<and> c \<noteq> CHR '':'')"
  by (auto simp: closingChars_def is_whitespace_def is_structural_def)



section \<open>Inversion of the productions\<close>


lemma ParseKey_Inr:
  "ParseKey ts = Inr (k, it1) \<Longrightarrow>
     \<exists>tok. ts = tok # '':'' # it1 \<and> 2 < length tok \<and> hd tok = CHR 0x22 \<and> last tok = CHR 0x22
        \<and> k = substr tok 1 (length tok - 2)"
  by (cases ts) (auto simp: ParseKey.simps split: if_splits list.splits)

lemma quoted_not_bracket:
  "hd tok = CHR 0x22 \<Longrightarrow> tok \<noteq> ''{'' \<and> tok \<noteq> ''}'' \<and> tok \<noteq> ''['' \<and> tok \<noteq> '']''"
  by auto

lemma literal_not_bracket:
  "EqualIgnoreCase tok lit \<Longrightarrow> 1 < length lit \<Longrightarrow> tok \<noteq> ''}'' \<and> tok \<noteq> '']''"
  by (auto simp: EqualIgnoreCase_def)

lemma number_not_bracket:
  "IsValidNumber tok \<Longrightarrow> tok \<noteq> ''}'' \<and> tok \<noteq> '']''"
  by (auto simp: IsValidNumber_def validChars_def)

lemma Parse_scalar:
  assumes "Parse P acc (tok # rest) key = Inr (pe, it)" "tok \<noteq> ''{''" "tok \<noteq> ''[''"
  shows "it = tok # rest \<and> tok \<noteq> ''}'' \<and> tok \<noteq> '']'' \<and>
         (\<exists>e. pe = Some e \<and>
            (ParseStringElement (tok # rest) key = Inr (e, it) \<and> 0 < length tok \<and> hd tok = CHR 0x22
             \<or> (\<exists>b. e = BoolElement key b) \<or> e = NullElement key
             \<or> ParseNumberElement P (tok # rest) key = Inr (e, it) \<and> IsValidNumber tok))"
proof -
  note r = assms(1)[unfolded Parse.simps if_not_P[OF assms(2)] if_not_P[OF assms(3)]]
  show ?thesis
  proof (cases "0 < length tok \<and> hd tok = CHR 0x22")
    case True
    note r1 = r[unfolded if_P[OF True]]
    from r1 obtain e where e: "ParseStringElement (tok # rest) key = Inr (e, it)" "pe = Some e"
      by (auto split: sum.splits)
    with True quoted_not_bracket[of tok] ParseStringElement_it[OF e(1)] show ?thesis by auto
  next
    case ns: False
    note r2 = r[unfolded if_not_P[OF ns]]
    show ?thesis
    proof (cases "EqualIgnoreCase tok ''true'' \<or> EqualIgnoreCase tok ''false''")
      case True
      note r2' = r2[unfolded if_P[OF True]]
      from True have "tok \<noteq> ''}'' \<and> tok \<noteq> '']''"
        by (auto dest!: literal_not_bracket)
      with r2' show ?thesis by (auto split: if_splits)
    next
      case nbool: False
      note r3 = r2[unfolded if_not_P[OF nbool]]
      show ?thesis
      proof (cases "EqualIgnoreCase tok ''null''")
        case True
        note r3' = r3[unfolded if_P[OF True]]
        from True have "tok \<noteq> ''}'' \<and> tok \<noteq> '']''"
          by (auto dest!: literal_not_bracket)
        with r3' show ?thesis by (auto split: if_splits)
      next
        case False
        note r4 = r3[unfolded if_not_P[OF False]]
        show ?thesis
        proof (cases "IsValidNumber tok")
          case True
          note r5 = r4[unfolded if_P[OF True]]
          from r5 obtain e where e: "ParseNumberElement P (tok # rest) key = Inr (e, it)" "pe = Some e"
            by (auto split: sum.splits)
          with True number_not_bracket[OF True] ParseNumberElement_it[OF e(1)] show ?thesis by auto
        next
          case False
          with r4 show ?thesis by simp
        qed
      qed
    qed
  qed
qed


lemma ParseStringElement_key: "ParseStringElement ts key = Inr (e, it) \<Longrightarrow> key_of e = key"
  by (cases ts) (auto simp: ParseStringElement.simps split: if_splits)

lemma ParseNumberElement_key: "ParseNumberElement P ts key = Inr (e, it) \<Longrightarrow> key_of e = key"
  by (cases ts) (auto simp: ParseNumberElement.simps split: if_splits conv.splits option.splits)

lemma Parse_scalar_key:
  assumes "Parse P acc (tok # rest) key = Inr (Some e, it)" "tok \<noteq> ''{''" "tok \<noteq> ''[''"
  shows "key_of e = key"
  using Parse_scalar[OF assms] by (auto dest: ParseStringElement_key ParseNumberElement_key)

lemma ParseObjectLoop_cases:
  assumes "ParseObjectLoop P acc (prev # it) kids = Inr (kids', it')"
  shows "(it = [] \<and> kids' = kids \<and> it' = [])
       \<or> (\<exists>r. it = ''}'' # r \<and> kids' = kids \<and> it' = it)
       \<or> (\<exists>r. it = '','' # r \<and> ParseObjectLoop P acc it kids = Inr (kids', it'))
       \<or> (\<exists>t r ck it1 child a n r2. it = t # r \<and> t \<noteq> ''}'' \<and> t \<noteq> '','' \<and>
             ParseKey it = Inr (ck, it1) \<and> Parse P acc it1 ck = Inr (Some child, a # n # r2) \<and>
             (n = '','' \<or> n = ''}'') \<and>
             ParseObjectLoop P acc (a # n # r2) (kids @ [child]) = Inr (kids', it'))"
proof (cases it)
  case Nil
  with assms show ?thesis by (simp add: ParseObjectLoop.simps)
next
  case (Cons t r)
  note r0 = assms[unfolded ParseObjectLoop.simps(2), unfolded Cons list.case]
  show ?thesis
  proof (cases "t = ''}''")
    case True
    with r0 Cons show ?thesis by auto
  next
    case nclose: False
    note r1 = r0[unfolded if_not_P[OF nclose]]
    show ?thesis
    proof (cases "t = '',''")
      case True
      with r1 Cons show ?thesis by simp
    next
      case ncomma: False
      have "\<exists>ck it1 child a n r2. ParseKey (t # r) = Inr (ck, it1) \<and>
             Parse P acc it1 ck = Inr (Some child, a # n # r2) \<and> (n = '','' \<or> n = ''}'') \<and>
             ParseObjectLoop P acc (a # n # r2) (kids @ [child]) = Inr (kids', it')"
        using r1[unfolded if_P[OF ncomma]]
        by (auto split: sum.splits prod.splits option.splits list.splits if_splits)
      with Cons nclose ncomma show ?thesis by blast
    qed
  qed
qed

lemma ParseArrayLoop_cases:
  assumes "ParseArrayLoop P acc (prev # it) elems = Inr (elems', it')"
  shows "(it = [] \<and> elems' = elems \<and> it' = [])
       \<or> (\<exists>r. it = '']'' # r \<and> elems' = elems \<and> it' = it)
       \<or> (\<exists>r. it = '','' # r \<and> ParseArrayLoop P acc it elems = Inr (elems', it'))
       \<or> (\<exists>t r item a n r2. it = t # r \<and> t \<noteq> '']'' \<and> t \<noteq> '','' \<and>
             Parse P acc it [] = Inr (Some item, a # n # r2) \<and>
             (n = '','' \<or> n = '']'') \<and>
             ParseArrayLoop P acc (a # n # r2) (elems @ [item]) = Inr (elems', it'))"
proof (cases it)
  case Nil
  with assms show ?thesis by (simp add: ParseArrayLoop.simps)
next
  case (Cons t r)
  note r0 = assms[unfolded ParseArrayLoop.simps(2), unfolded Cons list.case]
  show ?thesis
  proof (cases "t = '']''")
    case True
    with r0 Cons show ?thesis by auto
  next
    case nclose: False
    note r1 = r0[unfolded if_not_P[OF nclose]]
    show ?thesis
    proof (cases "t = '',''")
      case True
      with r1 Cons show ?thesis by simp
    next
      case ncomma: False
      have "\<exists>item a n r2. Parse P acc (t # r) [] = Inr (Some item, a # n # r2) \<and>
             (n = '','' \<or> n = '']'') \<and>
             ParseArrayLoop P acc (a # n # r2) (elems @ [item]) = Inr (elems', it')"
        using r1[unfolded if_P[OF ncomma]]
        by (auto split: sum.splits prod.splits option.splits list.splits if_splits)
      with Cons nclose ncomma show ?thesis by blast
    qed
  qed
qed

lemma ParseObjectElement_cases:
  assumes "ParseObjectElement P acc ts key = Inr (e, it)"
  shows "\<exists>rest kids r. ts = ''{'' # rest \<and> ParseObjectLoop P acc ts [] = Inr (kids, it) \<and>
           it = ''}'' # r \<and> e = ObjectElement key kids"
proof (cases ts)
  case Nil
  with assms show ?thesis by (simp add: ParseObjectElement.simps)
next
  case (Cons tok rest)
  with assms show ?thesis
    by (auto simp: ParseObjectElement.simps split: if_splits sum.splits prod.splits list.splits)
qed

lemma ParseArrayElement_cases:
  assumes "ParseArrayElement P acc ts key = Inr (e, it)"
  shows "\<exists>rest elems r. ts = ''['' # rest \<and> ParseArrayLoop P acc ts [] = Inr (elems, it) \<and>
           it = '']'' # r \<and> e = ArrayElement key elems"
proof (cases ts)
  case Nil
  with assms show ?thesis by (simp add: ParseArrayElement.simps)
next
  case (Cons tok rest)
  with assms show ?thesis
    by (auto simp: ParseArrayElement.simps split: if_splits sum.splits prod.splits list.splits)
qed

lemma Parse_cases:
  assumes "Parse P acc ts key = Inr (pe, it)"
  shows "(ts = [] \<and> pe = None \<and> it = [])
       \<or> (\<exists>rest e. ts = ''{'' # rest \<and> pe = Some e \<and> ParseObjectElement P acc ts key = Inr (e, it))
       \<or> (\<exists>rest e. ts = ''['' # rest \<and> pe = Some e \<and> ParseArrayElement P acc ts key = Inr (e, it))
       \<or> (\<exists>tok rest e. ts = tok # rest \<and> tok \<noteq> ''{'' \<and> tok \<noteq> ''['' \<and> tok \<noteq> ''}'' \<and> tok \<noteq> '']''
             \<and> pe = Some e \<and> it = ts \<and> key_of e = key)"
proof (cases ts)
  case Nil
  with assms show ?thesis by (simp add: Parse.simps)
next
  case (Cons tok rest)
  show ?thesis
  proof (cases "tok = ''{''")
    case True
    with assms Cons show ?thesis
      by (auto simp: Parse.simps split: sum.splits)
  next
    case nobj: False
    show ?thesis
    proof (cases "tok = ''[''")
      case True
      with assms Cons show ?thesis
        by (auto simp: Parse.simps split: sum.splits)
    next
      case False
      from Parse_scalar[OF assms[unfolded Cons] nobj False] Cons nobj False
      show ?thesis by (auto dest: ParseStringElement_key ParseNumberElement_key)
    qed
  qed
qed


lemma Parse_success_induct:
  fixes Q :: "'ld platform \<Rightarrow> bool \<Rightarrow> string list \<Rightarrow> string \<Rightarrow> 'ld Element \<Rightarrow> string list \<Rightarrow> bool"
    and QO QA :: "'ld platform \<Rightarrow> bool \<Rightarrow> string list \<Rightarrow> 'ld Element list \<Rightarrow> 'ld Element list \<Rightarrow> string list \<Rightarrow> bool"
  assumes scalar: "\<And>P acc tok rest key e.
      \<lbrakk>tok \<noteq> ''{''; tok \<noteq> ''[''; tok \<noteq> ''}''; tok \<noteq> '']'';
       Parse P acc (tok # rest) key = Inr (Some e, tok # rest)\<rbrakk>
      \<Longrightarrow> Q P acc (tok # rest) key e (tok # rest)"
    and object: "\<And>P acc rest key kids r.
      \<lbrakk>ParseObjectLoop P acc (''{'' # rest) [] = Inr (kids, ''}'' # r);
       QO P acc (''{'' # rest) [] kids (''}'' # r)\<rbrakk>
      \<Longrightarrow> Q P acc (''{'' # rest) key (ObjectElement key kids) (''}'' # r)"
    and array: "\<And>P acc rest key elems r.
      \<lbrakk>ParseArrayLoop P acc (''['' # rest) [] = Inr (elems, '']'' # r);
       QA P acc (''['' # rest) [] elems ('']'' # r)\<rbrakk>
      \<Longrightarrow> Q P acc (''['' # rest) key (ArrayElement key elems) ('']'' # r)"
    and object_end: "\<And>P acc prev r kids. QO P acc (prev # ''}'' # r) kids kids (''}'' # r)"
    and object_comma: "\<And>P acc prev r kids kids' it'.
      \<lbrakk>ParseObjectLoop P acc ('','' # r) kids = Inr (kids', it'); it' \<noteq> [];
       QO P acc ('','' # r) kids kids' it'\<rbrakk>
      \<Longrightarrow> QO P acc (prev # '','' # r) kids kids' it'"
    and object_member: "\<And>P acc prev tok it1 child a n r2 kids kids' it'.
      \<lbrakk>2 < length tok; hd tok = CHR 0x22; last tok = CHR 0x22;
       Parse P acc it1 (substr tok 1 (length tok - 2)) = Inr (Some child, a # n # r2);
       Q P acc it1 (substr tok 1 (length tok - 2)) child (a # n # r2);
       n = '','' \<or> n = ''}'';
       ParseObjectLoop P acc (a # n # r2) (kids @ [child]) = Inr (kids', it'); it' \<noteq> [];
       QO P acc (a # n # r2) (kids @ [child]) kids' it'\<rbrakk>
      \<Longrightarrow> QO P acc (prev # tok # '':'' # it1) kids kids' it'"
    and array_end: "\<And>P acc prev r elems. QA P acc (prev # '']'' # r) elems elems ('']'' # r)"
    and array_comma: "\<And>P acc prev r elems elems' it'.
      \<lbrakk>ParseArrayLoop P acc ('','' # r) elems = Inr (elems', it'); it' \<noteq> [];
       QA P acc ('','' # r) elems elems' it'\<rbrakk>
      \<Longrightarrow> QA P acc (prev # '','' # r) elems elems' it'"
    and array_item: "\<And>P acc prev t r item a n r2 elems elems' it'.
      \<lbrakk>t \<noteq> '']''; t \<noteq> '','';
       Parse P acc (t # r) [] = Inr (Some item, a # n # r2);
       Q P acc (t # r) [] item (a # n # r2);
       n = '','' \<or> n = '']'';
       ParseArrayLoop P acc (a # n # r2) (elems @ [item]) = Inr (elems', it'); it' \<noteq> [];
       QA P acc (a # n # r2) (elems @ [item]) elems' it'\<rbrakk>
      \<Longrightarrow> QA P acc (prev # t # r) elems elems' it'"
  shows "Parse P acc ts key = Inr (Some e, it) \<longrightarrow> Q P acc ts key e it"
    and "ParseObjectElement P acc ts key = Inr (e, it) \<longrightarrow> Q P acc ts key e it"
    and "ParseObjectLoop P acc ts kids = Inr (kids', it) \<longrightarrow> it \<noteq> [] \<longrightarrow> QO P acc ts kids kids' it"
    and "ParseArrayElement P acc ts key = Inr (e, it) \<longrightarrow> Q P acc ts key e it"
    and "ParseArrayLoop P acc ts kids = Inr (kids', it) \<longrightarrow> it \<noteq> [] \<longrightarrow> QA P acc ts kids kids' it"
proof (induct P acc ts key and P acc ts key and P acc ts kids and P acc ts key and P acc ts kids
       arbitrary: e it and e it and kids' it and e it and kids' it
       rule: Parse_ParseObjectElement_ParseObjectLoop_ParseArrayElement_ParseArrayLoop.induct)
  case (1 P acc key)
  show ?case by (simp add: Parse.simps)
next
  case (2 P acc tok rest key)
  show ?case
  proof
    assume r: "Parse P acc (tok # rest) key = Inr (Some e, it)"
    from Parse_cases[OF r] consider
        (obj) "tok = ''{''" "ParseObjectElement P acc (tok # rest) key = Inr (e, it)"
      | (arr) "tok \<noteq> ''{''" "tok = ''[''" "ParseArrayElement P acc (tok # rest) key = Inr (e, it)"
      | (sc) "tok \<noteq> ''{''" "tok \<noteq> ''[''" "tok \<noteq> ''}''" "tok \<noteq> '']''" "it = tok # rest"
      by auto
    then show "Q P acc (tok # rest) key e it"
    proof cases
      case obj
      with 2(1)[OF obj(1)] show ?thesis by blast
    next
      case arr
      with 2(2)[OF arr(1,2)] show ?thesis by blast
    next
      case sc
      with r scalar[of tok P acc rest key e] show ?thesis by simp
    qed
  qed
next
  case (3 P acc key)
  show ?case by (simp add: ParseObjectElement.simps)
next
  case (4 P acc tok rest key)
  show ?case
  proof
    assume r: "ParseObjectElement P acc (tok # rest) key = Inr (e, it)"
    from ParseObjectElement_cases[OF r] obtain kids r' where
      f: "tok = ''{''" "ParseObjectLoop P acc (tok # rest) [] = Inr (kids, it)"
         "it = ''}'' # r'" "e = ObjectElement key kids"
      by auto
    from f(1) have "\<not> tok \<noteq> ''{''" by simp
    from 4[OF this] f(2,3) have "QO P acc (tok # rest) [] kids it" by simp
    with f object[of P acc rest kids r' key] show "Q P acc (tok # rest) key e it" by simp
  qed
next
  case (5 P acc children)
  show ?case by (simp add: ParseObjectLoop.simps)
next
  case (6 P acc prev it0 children)
  show ?case
  proof (intro impI)
    assume r: "ParseObjectLoop P acc (prev # it0) children = Inr (kids', it)" and ne: "it \<noteq> []"
    from ParseObjectLoop_cases[OF r] ne consider
        (close) r' where "it0 = ''}'' # r'" "kids' = children" "it = it0"
      | (comma) r' where "it0 = '','' # r'" "ParseObjectLoop P acc it0 children = Inr (kids', it)"
      | (member) t r' ck it1 child a n r2 where "it0 = t # r'" "t \<noteq> ''}''" "t \<noteq> '',''"
          "ParseKey it0 = Inr (ck, it1)" "Parse P acc it1 ck = Inr (Some child, a # n # r2)"
          "n = '','' \<or> n = ''}''"
          "ParseObjectLoop P acc (a # n # r2) (children @ [child]) = Inr (kids', it)"
      by blast
    then show "QO P acc (prev # it0) children kids' it"
    proof cases
      case close
      with object_end[of P acc prev r' children] show ?thesis by simp
    next
      case comma
      have c1: "'','' \<noteq> ''}''" by simp
      have c2: "\<not> '','' \<noteq> '',''" by simp
      from 6(3)[OF comma(1) c1 c2] comma(2) ne have "QO P acc it0 children kids' it" by blast
      with comma ne object_comma[of P acc r' children kids' it prev] show ?thesis by simp
    next
      case member
      from ParseKey_Inr[OF member(4)] obtain tok where
        k: "it0 = tok # '':'' # it1" "2 < length tok" "hd tok = CHR 0x22" "last tok = CHR 0x22"
           "ck = substr tok 1 (length tok - 2)"
        by blast
      have q1: "Q P acc it1 ck child (a # n # r2)"
        using 6(1)[OF member(1,2,3,4) refl] member(5) by blast
      have nn: "\<not> (n \<noteq> '','' \<and> n \<noteq> ''}'')" using member(6) by blast
      have q3: "QO P acc (a # n # r2) (children @ [child]) kids' it"
        using 6(2)[OF member(1,2,3,4) refl member(5) refl refl refl refl nn] member(7) ne by blast
      from object_member[of tok P acc it1 child a n r2 children kids' it prev]
        k member q1 q3 ne
      show ?thesis by simp
    qed
  qed
next
  case (7 P acc key)
  show ?case by (simp add: ParseArrayElement.simps)
next
  case (8 P acc tok rest key)
  show ?case
  proof
    assume r: "ParseArrayElement P acc (tok # rest) key = Inr (e, it)"
    from ParseArrayElement_cases[OF r] obtain elems r' where
      f: "tok = ''[''" "ParseArrayLoop P acc (tok # rest) [] = Inr (elems, it)"
         "it = '']'' # r'" "e = ArrayElement key elems"
      by auto
    from f(1) have "\<not> tok \<noteq> ''[''" by simp
    from 8[OF this] f(2,3) have "QA P acc (tok # rest) [] elems it" by simp
    with f array[of P acc rest elems r' key] show "Q P acc (tok # rest) key e it" by simp
  qed
next
  case (9 P acc elements)
  show ?case by (simp add: ParseArrayLoop.simps)
next
  case (10 P acc prev it0 elements)
  show ?case
  proof (intro impI)
    assume r: "ParseArrayLoop P acc (prev # it0) elements = Inr (kids', it)" and ne: "it \<noteq> []"
    from ParseArrayLoop_cases[OF r] ne consider
        (close) r' where "it0 = '']'' # r'" "kids' = elements" "it = it0"
      | (comma) r' where "it0 = '','' # r'" "ParseArrayLoop P acc it0 elements = Inr (kids', it)"
      | (item) t r' item a n r2 where "it0 = t # r'" "t \<noteq> '']''" "t \<noteq> '',''"
          "Parse P acc it0 [] = Inr (Some item, a # n # r2)"
          "n = '','' \<or> n = '']''"
          "ParseArrayLoop P acc (a # n # r2) (elements @ [item]) = Inr (kids', it)"
      by blast
    then show "QA P acc (prev # it0) elements kids' it"
    proof cases
      case close
      with array_end[of P acc prev r' elements] show ?thesis by simp
    next
      case comma
      have c1: "'','' \<noteq> '']''" by simp
      have c2: "\<not> '','' \<noteq> '',''" by simp
      from 10(3)[OF comma(1) c1 c2] comma(2) ne have "QA P acc it0 elements kids' it" by blast
      with comma ne array_comma[of P acc r' elements kids' it prev] show ?thesis by simp
    next
      case item
      have q1: "Q P acc it0 [] item (a # n # r2)"
        using 10(1)[OF item(1,2,3)] item(4) by blast
      have nn: "\<not> (n \<noteq> '','' \<and> n \<noteq> '']'')" using item(5) by blast
      have q3: "QA P acc (a # n # r2) (elements @ [item]) kids' it"
        using 10(2)[OF item(1,2,3,4) refl refl refl refl nn] item(6) ne by blast
      from array_item[of t P acc r' item a n r2 elements kids' it prev]
        item q1 q3 ne
      show ?thesis by simp
    qed
  qed
qed


section \<open>Invariants of a successful parse\<close>


lemma matching_close_skip:
  "t \<noteq> ''{'' \<Longrightarrow> t \<noteq> ''['' \<Longrightarrow> t \<noteq> ''}'' \<Longrightarrow> t \<noteq> '']'' \<Longrightarrow>
     matching_close d (t # ts) = matching_close d ts"
  by simp

lemma matching_close_open:
  "t = ''{'' \<or> t = ''['' \<Longrightarrow> matching_close d (t # ts) = matching_close (Suc d) ts"
  by auto

lemma matching_close_close_Suc:
  "t = ''}'' \<or> t = '']'' \<Longrightarrow> matching_close (Suc d) (t # ts) = matching_close d ts"
  by auto

lemma matching_close_close_0:
  "t = ''}'' \<or> t = '']'' \<Longrightarrow> matching_close 0 (t # ts) = Some (t # ts)"
  by auto

declare matching_close.simps [simp del]

lemma Parse_structure:
  "Parse P acc ts key = Inr (Some e, it) \<longrightarrow>
     it \<noteq> [] \<and> set it \<subseteq> set ts \<and> key_of e = key \<and>
     (\<forall>d. matching_close d ts = matching_close d (tl it))"
  "ParseObjectElement P acc ts key = Inr (e, it) \<longrightarrow>
     it \<noteq> [] \<and> set it \<subseteq> set ts \<and> key_of e = key \<and>
     (\<forall>d. matching_close d ts = matching_close d (tl it))"
  "ParseObjectLoop P acc ts kids = Inr (kids', it) \<longrightarrow> it \<noteq> [] \<longrightarrow>
     hd it = ''}'' \<and> set it \<subseteq> set ts \<and> (\<forall>d. matching_close d (tl ts) = matching_close d it)"
  "ParseArrayElement P acc ts key = Inr (e, it) \<longrightarrow>
     it \<noteq> [] \<and> set it \<subseteq> set ts \<and> key_of e = key \<and>
     (\<forall>d. matching_close d ts = matching_close d (tl it))"
  "ParseArrayLoop P acc ts kids = Inr (kids', it) \<longrightarrow> it \<noteq> [] \<longrightarrow>
     hd it = '']'' \<and> set it \<subseteq> set ts \<and> (\<forall>d. matching_close d (tl ts) = matching_close d it)"
proof (induct rule: Parse_success_induct[where
      Q = "\<lambda>P acc ts key e it. it \<noteq> [] \<and> set it \<subseteq> set ts \<and> key_of e = key \<and>
             (\<forall>d. matching_close d ts = matching_close d (tl it))"
      and QO = "\<lambda>P acc ts kids kids' it. hd it = ''}'' \<and> set it \<subseteq> set ts \<and>
             (\<forall>d. matching_close d (tl ts) = matching_close d it)"
      and QA = "\<lambda>P acc ts kids kids' it. hd it = '']'' \<and> set it \<subseteq> set ts \<and>
             (\<forall>d. matching_close d (tl ts) = matching_close d it)"])
  case (1 P acc tok rest key e)
  from Parse_scalar_key[OF 1(5) 1(1,2)] 1(1-4) show ?case
    by (simp add: matching_close_skip)
next
  case (2 P acc rest key kids r)
  then show ?case
    by (auto simp: matching_close_open matching_close_close_Suc)
next
  case (3 P acc rest key elems r)
  then show ?case
    by (auto simp: matching_close_open matching_close_close_Suc)
next
  case (4 P acc prev r kids)
  show ?case by auto
next
  case (5 P acc prev r kids kids' it')
  then show ?case
    by (auto simp: matching_close_skip)
next
  case (6 P acc prev tok it1 child a n r2 kids kids' it')
  from 6(2) have nb: "tok \<noteq> ''{''" "tok \<noteq> ''[''" "tok \<noteq> ''}''" "tok \<noteq> '']''"
    using quoted_not_bracket[of tok] by simp_all
  have "\<forall>d. matching_close d (tok # '':'' # it1) = matching_close d it1"
    using nb by (simp add: matching_close_skip)
  with 6 show ?case by auto
next
  case (7 P acc prev r elems)
  show ?case by auto
next
  case (8 P acc prev r elems elems' it')
  then show ?case
    by (auto simp: matching_close_skip)
next
  case (9 P acc prev t r item a n r2 elems elems' it')
  then show ?case by auto
qed



lemma stoll_range: "stoll tok = Conv_Ok n \<Longrightarrow> LLONG_MIN \<le> n \<and> n \<le> LLONG_MAX"
  by (auto simp: stoll_def Let_def split: if_splits)

lemma ParseStringElement_wf: "ParseStringElement ts key = Inr (e, it) \<Longrightarrow> wf_elem e"
  by (cases ts) (auto simp: ParseStringElement.simps substr_def split: if_splits)

lemma ParseNumberElement_wf: "ParseNumberElement P ts key = Inr (e, it) \<Longrightarrow> wf_elem e"
  by (cases ts)
     (auto simp: ParseNumberElement.simps split: if_splits conv.splits option.splits dest: stoll_range)

lemma Parse_scalar_wf:
  assumes "Parse P acc (tok # rest) key = Inr (Some e, it)" "tok \<noteq> ''{''" "tok \<noteq> ''[''"
  shows "wf_elem e"
  using Parse_scalar[OF assms] by (auto dest: ParseStringElement_wf ParseNumberElement_wf)

lemma substr_key_nonempty: "2 < length tok \<Longrightarrow> substr tok 1 (length tok - 2) \<noteq> []"
  by (simp add: substr_def)

lemma Parse_wf:
  "Parse P acc ts key = Inr (Some e, it) \<longrightarrow> wf_elem e"
  "ParseObjectElement P acc ts key = Inr (e, it) \<longrightarrow> wf_elem e"
  "ParseObjectLoop P acc ts kids = Inr (kids', it) \<longrightarrow> it \<noteq> [] \<longrightarrow>
     (\<forall>c \<in> set kids. key_of c \<noteq> [] \<and> wf_elem c) \<longrightarrow> (\<forall>c \<in> set kids'. key_of c \<noteq> [] \<and> wf_elem c)"
  "ParseArrayElement P acc ts key = Inr (e, it) \<longrightarrow> wf_elem e"
  "ParseArrayLoop P acc ts kids = Inr (kids', it) \<longrightarrow> it \<noteq> [] \<longrightarrow>
     (\<forall>c \<in> set kids. key_of c = [] \<and> wf_elem c) \<longrightarrow> (\<forall>c \<in> set kids'. key_of c = [] \<and> wf_elem c)"
proof (induct rule: Parse_success_induct[where
      Q = "\<lambda>P acc ts key e it. wf_elem e"
      and QO = "\<lambda>P acc ts kids kids' it. (\<forall>c \<in> set kids. key_of c \<noteq> [] \<and> wf_elem c) \<longrightarrow>
                 (\<forall>c \<in> set kids'. key_of c \<noteq> [] \<and> wf_elem c)"
      and QA = "\<lambda>P acc ts kids kids' it. (\<forall>c \<in> set kids. key_of c = [] \<and> wf_elem c) \<longrightarrow>
                 (\<forall>c \<in> set kids'. key_of c = [] \<and> wf_elem c)"])
  case (1 P acc tok rest key e)
  from Parse_scalar_wf[OF 1(5) 1(1,2)] show ?case .
next
  case (2 P acc rest key kids r)
  from 2(2) show ?case by simp
next
  case (3 P acc rest key elems r)
  from 3(2) show ?case by simp
next
  case (4 P acc prev r kids)
  show ?case by simp
next
  case (5 P acc prev r kids kids' it')
  from 5(3) show ?case .
next
  case (6 P acc prev tok it1 child a n r2 kids kids' it')
  from Parse_structure(1)[of P acc it1 "substr tok 1 (length tok - 2)" child "a # n # r2"] 6(4)
  have "key_of child = substr tok 1 (length tok - 2)" by simp
  with substr_key_nonempty[OF 6(1)] have kc: "key_of child \<noteq> []" by simp
  show ?case
  proof
    assume k: "\<forall>c \<in> set kids. key_of c \<noteq> [] \<and> wf_elem c"
    with kc 6(5) have "\<forall>c \<in> set (kids @ [child]). key_of c \<noteq> [] \<and> wf_elem c" by simp
    with 6(9) show "\<forall>c \<in> set kids'. key_of c \<noteq> [] \<and> wf_elem c" by blast
  qed
next
  case (7 P acc prev r elems)
  show ?case by simp
next
  case (8 P acc prev r elems elems' it')
  from 8(3) show ?case .
next
  case (9 P acc prev t r item a n r2 elems elems' it')
  from Parse_structure(1)[of P acc "t # r" "[]" item "a # n # r2"] 9(3)
  have kc: "key_of item = []" by simp
  show ?case
  proof
    assume k: "\<forall>c \<in> set elems. key_of c = [] \<and> wf_elem c"
    with kc 9(4) have "\<forall>c \<in> set (elems @ [item]). key_of c = [] \<and> wf_elem c" by simp
    with 9(8) show "\<forall>c \<in> set elems'. key_of c = [] \<and> wf_elem c" by blast
  qed
qed

lemma ParseDocument_Inr:
  assumes "ParseDocument P json = Inr root"
  shows "\<exists>tokens it. Lex json = Inr tokens \<and> Parse P True tokens [] = Inr (Some root, it) \<and> IsObject root"
proof (cases "Lex json")
  case (Inl f)
  with assms show ?thesis by (simp add: ParseDocument_def)
next
  case (Inr tokens)
  show ?thesis
  proof (cases "Parse P True tokens []")
    case (Inl f)
    with assms Inr show ?thesis by (simp add: ParseDocument_def)
  next
    case (Inr res)
    obtain pRoot it where res: "res = (pRoot, it)" by (cases res)
    show ?thesis
    proof (cases pRoot)
      case None
      with assms \<open>Lex json = Inr tokens\<close> Inr res show ?thesis by (simp add: ParseDocument_def)
    next
      case (Some r)
      with assms \<open>Lex json = Inr tokens\<close> Inr res show ?thesis
        by (simp add: ParseDocument_def split: if_splits)
    qed
  qed
qed

lemma ParseDocument_wf:
  assumes "ParseDocument P json = Inr root"
  shows "key_of root = [] \<and> wf_elem root"
proof -
  from ParseDocument_Inr[OF assms] obtain tokens it where
    p: "Parse P True tokens [] = Inr (Some root, it)" by blast
  with Parse_structure(1)[of P True tokens "[]" root it] Parse_wf(1)[of P True tokens "[]" root it]
  show ?thesis by simp
qed

lemma wf_keyed: "wf_elem e \<Longrightarrow> keyed_iff_member e"
  by (induction e rule: keyed_iff_member.induct) auto

lemma wf_no_empty: "wf_elem e \<Longrightarrow> no_empty_text e"
  by (induction e rule: no_empty_text.induct) auto


section \<open>Numerals: the last point, digits of the formatter\<close>



lemma less_10_cases:
  "(d::nat) < 10 \<Longrightarrow> d = 0 \<or> d = 1 \<or> d = 2 \<or> d = 3 \<or> d = 4 \<or> d = 5 \<or> d = 6 \<or> d = 7 \<or> d = 8 \<or> d = 9"
  by arith

lemma digit_char_isdigit: "d < 10 \<Longrightarrow> isdigit (digit_char d)"
  by (drule less_10_cases) (auto simp: isdigit_def digit_char_def)

lemma zero_pad_eq: "zero_pad p ds = replicate (p - length ds) (CHR ''0'') @ ds"
proof (induction p ds rule: zero_pad.induct)
  case (1 p ds)
  show ?case
  proof (cases "length ds < p")
    case True
    then have "p - length ds = Suc (p - Suc (length ds))" by simp
    with 1[OF True] True show ?thesis
      by (subst zero_pad.simps) (simp add: replicate_app_Cons_same)
  next
    case False
    then show ?thesis by (subst zero_pad.simps) simp
  qed
qed

lemma nat_digits_isdigit: "list_all isdigit (nat_digits n)"
proof (induction n rule: nat_digits.induct)
  case (1 n)
  show ?case
  proof (cases "n < 10")
    case True
    then show ?thesis by (subst nat_digits.simps) (simp add: digit_char_isdigit)
  next
    case False
    with 1 show ?thesis by (subst nat_digits.simps) (simp add: digit_char_isdigit)
  qed
qed

lemma nat_digits_length: "n < 10 ^ p \<Longrightarrow> 0 < p \<Longrightarrow> length (nat_digits n) \<le> p"
proof (induction n arbitrary: p rule: nat_digits.induct)
  case (1 n)
  show ?case
  proof (cases "n < 10")
    case True
    with 1(3) show ?thesis by (subst nat_digits.simps) simp
  next
    case False
    from 1(3) obtain q where p: "p = Suc q" by (cases p) auto
    from False 1(2) p have "0 < q" by (cases q) auto
    moreover from 1(2) p have "n div 10 < 10 ^ q" by (simp add: less_mult_imp_div_less mult.commute)
    ultimately have "length (nat_digits (n div 10)) \<le> q" using 1(1)[OF False] by blast
    with False p show ?thesis by (subst nat_digits.simps) simp
  qed
qed

lemma put_fixed_ref_shape:
  assumes "0 < p"
  shows "\<exists>ip fp. put_fixed_ref p x = ip @ ''.'' @ fp \<and> length fp = p \<and> list_all isdigit fp"
proof -
  obtain neg m e where x: "x = Decimal neg m e" by (cases x)
  define N where "N = scaled_mantissa p m e"
  define fp where "fp = nat_digits (N mod 10 ^ p)"
  have l: "length fp \<le> p" unfolding fp_def using assms by (intro nat_digits_length) simp_all
  have "put_fixed_ref p x =
      ((if neg then ''-'' else []) @ nat_digits (N div 10 ^ p)) @ ''.'' @ zero_pad p fp"
    using assms by (simp add: x N_def fp_def)
  moreover have "length (zero_pad p fp) = p" using l by (simp add: zero_pad_eq)
  moreover have "list_all isdigit (zero_pad p fp)"
  proof -
    have z: "isdigit (CHR ''0'')" by (simp add: isdigit_def)
    have "list_all isdigit (replicate (p - length fp) (CHR ''0''))"
      using z by (simp add: list_all_iff)
    with nat_digits_isdigit[of "N mod 10 ^ p"] show ?thesis
      by (simp add: fp_def zero_pad_eq)
  qed
  ultimately show ?thesis by blast
qed


section \<open>The lexer on a suffix of its buffer\<close>

lemma lex_cons_simps [simp]:
  "lex_cons toks (Inl f) = Inl f"
  "lex_cons toks (Inr rt) = Inr (toks @ rt)"
  by (simp_all add: lex_cons_def)

lemma lex_cons_lex_cons [simp]: "lex_cons a (lex_cons b r) = lex_cons (a @ b) r"
  by (cases r) simp_all

lemma lex_cons_Nil [simp]: "lex_cons [] r = r"
  by (cases r) simp_all

lemma find_char_shift:
  "find_char (pre @ s) c (length pre + k) = map_option (\<lambda>i. length pre + i) (find_char s c k)"
proof (induction s c k rule: find_char.induct)
  case (1 s c k)
  show ?case
  proof (cases "k < length s")
    case True
    show ?thesis
    proof (cases "s ! k = c")
      case True
      with \<open>k < length s\<close> show ?thesis
        by (subst find_char.simps, subst (2) find_char.simps) (simp add: nth_append)
    next
      case False
      have "find_char (pre @ s) c (length pre + k) = find_char (pre @ s) c (length pre + (k + 1))"
        using True False by (subst find_char.simps) (simp add: nth_append)
      also have "\<dots> = map_option (\<lambda>i. length pre + i) (find_char s c (k + 1))"
        using 1[OF True False] .
      also have "find_char s c (k + 1) = find_char s c k"
        using True False by (subst (2) find_char.simps) simp
      finally show ?thesis .
    qed
  next
    case False
    then show ?thesis
      by (subst find_char.simps, subst (2) find_char.simps) simp
  qed
qed

lemma FindClosingCharacter_shift:
  "FindClosingCharacter (pre @ s) (length pre + k) =
     map_option (\<lambda>i. length pre + i) (FindClosingCharacter s k)"
proof (induction s k rule: FindClosingCharacter.induct)
  case (1 s k)
  show ?case
  proof (cases "k < length s")
    case True
    show ?thesis
    proof (cases "s ! k \<in> set closingChars")
      case True
      with \<open>k < length s\<close> show ?thesis
        by (subst FindClosingCharacter.simps, subst (2) FindClosingCharacter.simps) (simp add: nth_append)
    next
      case False
      have "FindClosingCharacter (pre @ s) (length pre + k) = FindClosingCharacter (pre @ s) (length pre + (k + 1))"
        using True False by (subst FindClosingCharacter.simps) (simp add: nth_append)
      also have "\<dots> = map_option (\<lambda>i. length pre + i) (FindClosingCharacter s (k + 1))"
        using 1[OF True False] .
      also have "FindClosingCharacter s (k + 1) = FindClosingCharacter s k"
        using True False by (subst (2) FindClosingCharacter.simps) simp
      finally show ?thesis .
    qed
  next
    case False
    then show ?thesis
      by (subst FindClosingCharacter.simps, subst (2) FindClosingCharacter.simps) simp
  qed
qed

lemma FindClosingQuotationMark_step:
  assumes "offset < length str"
  shows "FindClosingQuotationMark str offset =
     (if str ! offset = CHR 0x22 \<and> str ! (offset - 1) \<noteq> CHR 0x5C then Some offset
      else FindClosingQuotationMark str (offset + 1))"
proof (cases "str ! offset = CHR 0x22")
  case True
  with assms have "find_char str (CHR 0x22) offset = Some offset"
    by (subst find_char.simps) simp
  then show ?thesis using True
    by (subst FindClosingQuotationMark.simps) simp
next
  case False
  with assms have "find_char str (CHR 0x22) offset = find_char str (CHR 0x22) (offset + 1)"
    by (subst find_char.simps) simp
  then have "FindClosingQuotationMark str offset = FindClosingQuotationMark str (offset + 1)"
    by (subst FindClosingQuotationMark.simps, subst (2) FindClosingQuotationMark.simps) simp
  with False show ?thesis by simp
qed

lemma FindClosingQuotationMark_end:
  "length str \<le> offset \<Longrightarrow> FindClosingQuotationMark str offset = None"
  by (subst FindClosingQuotationMark.simps, subst find_char.simps) simp

lemma FindClosingQuotationMark_shift:
  assumes "0 < k"
  shows "FindClosingQuotationMark (pre @ s) (length pre + k) =
     map_option (\<lambda>i. length pre + i) (FindClosingQuotationMark s k)"
  using assms
proof (induction "length s - k" arbitrary: k)
  case 0
  then show ?case by (simp add: FindClosingQuotationMark_end)
next
  case (Suc n)
  then have k: "k < length s" by simp
  have "length pre + k - 1 = length pre + (k - 1)" using Suc.prems by simp
  then have q: "(pre @ s) ! (length pre + k - 1) = s ! (k - 1)"
    by (simp only: nth_append_length_plus)
  from Suc(2) k have n: "n = length s - (k + 1)" by simp
  have ih: "FindClosingQuotationMark (pre @ s) (length pre + (k + 1)) =
     map_option (\<lambda>i. length pre + i) (FindClosingQuotationMark s (k + 1))"
    by (rule Suc(1)[OF n]) simp
  have "FindClosingQuotationMark (pre @ s) (length pre + k) =
     (if s ! k = CHR 0x22 \<and> s ! (k - 1) \<noteq> CHR 0x5C then Some (length pre + k)
      else FindClosingQuotationMark (pre @ s) (length pre + k + 1))"
    using k q by (subst FindClosingQuotationMark_step) (simp_all add: nth_append)
  also have "\<dots> = map_option (\<lambda>i. length pre + i)
     (if s ! k = CHR 0x22 \<and> s ! (k - 1) \<noteq> CHR 0x5C then Some k
      else FindClosingQuotationMark s (k + 1))"
    using ih by (simp add: add.assoc)
  also have "\<dots> = map_option (\<lambda>i. length pre + i) (FindClosingQuotationMark s k)"
    using k by (subst (2) FindClosingQuotationMark_step) simp_all
  finally show ?case .
qed


lemma LexLoop_shift:
  "LexLoop (pre @ s) (length pre + k) toks = LexLoop s k toks"
proof (induction s k toks rule: LexLoop.induct)
  case (1 s k toks)
  show ?case
  proof (cases "k < length s")
    case False
    then show ?thesis by (subst LexLoop.simps, subst (2) LexLoop.simps) simp
  next
    case inb: True
    then have c: "(pre @ s) ! (length pre + k) = s ! k" by (simp add: nth_append)
    have len: "length pre + k < length (pre @ s)" using inb by simp
    show ?thesis
    proof (cases "is_whitespace (s ! k)")
      case True
      have "LexLoop (pre @ s) (length pre + k) toks = LexLoop (pre @ s) (length pre + (k + 1)) toks"
        using True len c by (subst LexLoop.simps) (simp add: add.assoc)
      also have "\<dots> = LexLoop s (k + 1) toks" using 1(1)[OF inb True] .
      also have "\<dots> = LexLoop s k toks"
        using True inb by (subst (2) LexLoop.simps) simp
      finally show ?thesis .
    next
      case nws: False
      show ?thesis
      proof (cases "is_structural (s ! k)")
        case True
        have t: "substr (pre @ s) (length pre + k) 1 = substr s k 1"
          by (simp add: substr_def)
        have "LexLoop (pre @ s) (length pre + k) toks =
              LexLoop (pre @ s) (length pre + (k + 1)) (toks @ [substr s k 1])"
          using True nws len c t by (subst LexLoop.simps) (simp add: add.assoc)
        also have "\<dots> = LexLoop s (k + 1) (toks @ [substr s k 1])"
          using 1(2)[OF inb nws True] .
        also have "\<dots> = LexLoop s k toks"
          using True nws inb by (subst (2) LexLoop.simps) simp
        finally show ?thesis .
      next
        case nst: False
        show ?thesis
        proof (cases "s ! k = CHR 0x22")
          case True
          have fq: "FindClosingQuotationMark (pre @ s) (length pre + k + 1) =
                map_option (\<lambda>i. length pre + i) (FindClosingQuotationMark s (k + 1))"
            using FindClosingQuotationMark_shift[of "k + 1" pre s] by (simp add: add.assoc)
          show ?thesis
          proof (cases "FindClosingQuotationMark s (k + 1)")
            case None
            with fq True nws nst len c inb show ?thesis
              by (subst LexLoop.simps, subst (2) LexLoop.simps) simp
          next
            case (Some e)
            have t: "substr (pre @ s) (length pre + k) (length pre + e - (length pre + k) + 1)
                     = substr s k (e - k + 1)"
              by (simp add: substr_def)
            have "LexLoop (pre @ s) (length pre + k) toks =
                  LexLoop (pre @ s) (length pre + (e + 1)) (toks @ [substr s k (e - k + 1)])"
              using Some fq True nws nst len c t
              by (subst LexLoop.simps) (simp add: add.assoc)
            also have "\<dots> = LexLoop s (e + 1) (toks @ [substr s k (e - k + 1)])"
              using 1(3)[OF inb nws nst True Some] .
            also have "\<dots> = LexLoop s k toks"
              using Some True nws nst inb by (subst (2) LexLoop.simps) simp
            finally show ?thesis .
          qed
        next
          case nq: False
          have fc: "FindClosingCharacter (pre @ s) (length pre + k) =
                map_option (\<lambda>i. length pre + i) (FindClosingCharacter s k)"
            by (rule FindClosingCharacter_shift)
          show ?thesis
          proof (cases "FindClosingCharacter s k")
            case None
            with fc nq nws nst len c inb show ?thesis
              by (subst LexLoop.simps, subst (2) LexLoop.simps) simp
          next
            case (Some e)
            from Some have ke: "k \<le> e" by (simp add: FindClosingCharacter_Some_iff)
            have "e \<noteq> k"
              using Some nws nst by (auto simp: FindClosingCharacter_Some_iff closingChars_iff)
            with ke have e1: "e - 1 + 1 = e" "length pre + e - 1 + 1 = length pre + e" by simp_all
            have t: "substr (pre @ s) (length pre + k) (length pre + e - (length pre + k))
                     = substr s k (e - k)"
              by (simp add: substr_def)
            have "LexLoop (pre @ s) (length pre + k) toks =
                  LexLoop (pre @ s) (length pre + (e - 1 + 1)) (toks @ [substr s k (e - k)])"
              using Some fc nq nws nst len c t e1
              by (subst LexLoop.simps) simp
            also have "\<dots> = LexLoop s (e - 1 + 1) (toks @ [substr s k (e - k)])"
              using 1(4)[OF inb nws nst nq Some] .
            also have "\<dots> = LexLoop s k toks"
              using Some nq nws nst inb by (subst (2) LexLoop.simps) simp
            finally show ?thesis .
          qed
        qed
      qed
    qed
  qed
qed

lemma LexLoop_acc:
  "LexLoop s k toks = lex_cons toks (LexLoop s k [])"
proof (induction "length s - k" arbitrary: k toks rule: less_induct)
  case less
  show ?case
  proof (cases "k < length s")
    case False
    then show ?thesis by (subst LexLoop.simps, subst (2) LexLoop.simps) simp
  next
    case inb: True
    have step: "LexLoop s k' tk = lex_cons tk (LexLoop s k' [])" if "k < k'" for k' tk
      using less[of k' tk] that inb by simp
    show ?thesis
    proof (cases "is_whitespace (s ! k)")
      case True
      have a: "LexLoop s k tk = LexLoop s (k + 1) tk" for tk
        using True inb by (subst LexLoop.simps) simp
      show ?thesis unfolding a using step[of "k + 1" toks] by simp
    next
      case nws: False
      show ?thesis
      proof (cases "is_structural (s ! k)")
        case True
        have a: "LexLoop s k tk = LexLoop s (k + 1) (tk @ [substr s k 1])" for tk
          using True nws inb by (subst LexLoop.simps) simp
        show ?thesis
          unfolding a using step[of "k + 1" "toks @ [substr s k 1]"] step[of "k + 1" "[] @ [substr s k 1]"]
          by simp
      next
        case nst: False
        show ?thesis
        proof (cases "s ! k = CHR 0x22")
          case True
          show ?thesis
          proof (cases "FindClosingQuotationMark s (k + 1)")
            case None
            with True nws nst inb show ?thesis
              by (subst LexLoop.simps, subst (2) LexLoop.simps) simp
          next
            case (Some e)
            let ?t = "substr s k (e - k + 1)"
            from FindClosingQuotationMark_bounds[OF Some] have ke: "k < e + 1" by simp
            have a: "LexLoop s k tk = LexLoop s (e + 1) (tk @ [?t])" for tk
              using Some True nws nst inb by (subst LexLoop.simps) simp
            show ?thesis
              unfolding a using step[OF ke, of "toks @ [?t]"] step[OF ke, of "[] @ [?t]"]
              by simp
          qed
        next
          case nq: False
          show ?thesis
          proof (cases "FindClosingCharacter s k")
            case None
            with nq nws nst inb show ?thesis
              by (subst LexLoop.simps, subst (2) LexLoop.simps) simp
          next
            case (Some e)
            let ?t = "substr s k (e - k)"
            from Some have "k \<le> e" by (simp add: FindClosingCharacter_Some_iff)
            moreover have "e \<noteq> k"
              using Some nws nst by (auto simp: FindClosingCharacter_Some_iff closingChars_iff)
            ultimately have ke: "k < e - 1 + 1" by simp
            have a: "LexLoop s k tk = LexLoop s (e - 1 + 1) (tk @ [?t])" for tk
              using Some nq nws nst inb by (subst LexLoop.simps) simp
            show ?thesis
              unfolding a using step[OF ke, of "toks @ [?t]"] step[OF ke, of "[] @ [?t]"]
              by simp
          qed
        qed
      qed
    qed
  qed
qed

section \<open>The lexer, token by token\<close>

lemma LexLoop_Cons: "LexLoop (c # s) (Suc 0) toks = LexLoop s 0 toks"
  using LexLoop_shift[of "[c]" s 0 toks] by simp


lemma Lex_whitespace: "is_whitespace c \<Longrightarrow> Lex (c # s) = Lex s"
  unfolding Lex_def by (subst LexLoop.simps) (simp add: LexLoop_Cons)








section \<open>Texts of a parsed tree\<close>

lemma substr_inner_Suc: "2 \<le> length tok \<Longrightarrow> substr tok (Suc 0) (length tok - 2) = butlast (tl tok)"
  by (simp add: substr_def butlast_conv_take drop_Suc numeral_2_eq_2)

lemma substr_inner: "2 \<le> length tok \<Longrightarrow> substr tok 1 (length tok - 2) = butlast (tl tok)"
  using substr_inner_Suc by simp







section \<open>Integers: printing and reading back\<close>
















section \<open>The lexer on a serialized tree\<close>












section \<open>The parser on the tokens of a serialized tree\<close>


















section \<open>Properties of the program\<close>

text \<open>
  C2. With case-insensitive literals accepted, \<^verbatim>\<open>Parse\<close> recognises \<^verbatim>\<open>True\<close> as a boolean, but it
  stores \<^verbatim>\<open>it->front() == 't'\<close>: on the input \<^verbatim>\<open>{"a":True}\<close> the document is built and the
  boolean stored under \<open>a\<close> is false.
\<close>

theorem capitalised_True_parses_to_false:
  \<open>ParseDocument P ''{"a":True}'' = Inr (ObjectElement [] [BoolElement ''a'' False])\<close>
  by (simp add: ParseDocument_def lex_eval parse_eval)


text \<open>
  C3. A numeral without a point is converted by \<^verbatim>\<open>std::stoll\<close>, which converts the longest
  prefix that is an integer: \<^verbatim>\<open>1e10\<close> is stored as the integer 1 and no error is raised. A
  numeral beyond the range of \<^verbatim>\<open>long long\<close> makes \<^verbatim>\<open>std::stoll\<close> throw \<^verbatim>\<open>std::out_of_range\<close>,
  which is not the invalid-number error and leaves the constructor even when an error
  slot was passed.
\<close>

theorem exponent_numeral_parses_as_prefix:
  \<open>ParseDocument P ''{"a":1e10}'' = Inr (ObjectElement [] [NumberElement ''a'' (TYPE_INTEGER 1) 0])
   \<and> ParseDocument P ''{"a":99999999999999999999}'' = Inl Uncaught_out_of_range
   \<and> JSON_JSON P ''{"a":99999999999999999999}'' True = Propagated Uncaught_out_of_range\<close>
  by (simp add: JSON_JSON_def ParseDocument_def lex_eval parse_eval)


text \<open>
  C5. The constructor catches thrown error codes only. On the input
  \<^verbatim>\<open>{"a":99999999999999999999}\<close> the \<^verbatim>\<open>std::out_of_range\<close> of \<^verbatim>\<open>std::stoll\<close> leaves the
  constructor although an error slot was passed, and no code is written to the slot. A
  thrown error code reaches the slot, as on \<^verbatim>\<open>{"a":1\<close> and on \<^verbatim>\<open>[1,2,3]\<close>, whose top-level
  element is not an Object; without a slot it leaves the constructor.
\<close>

theorem out_of_range_bypasses_error_slot:
  \<open>JSON_JSON P ''{"a":99999999999999999999}'' True = Propagated Uncaught_out_of_range
   \<and> JSON_JSON P ''{"a":99999999999999999999}'' False = Propagated Uncaught_out_of_range
   \<and> JSON_JSON P ''{"a":1'' True =
        Constructed \<lparr>m_pRootObject = None, m_bAcceptCaseInsensitiveLiterals = True\<rparr>
          (Some E_LEXING_ERR_INVALID_VALUE)
   \<and> JSON_JSON P ''[1,2,3]'' True =
        Constructed \<lparr>m_pRootObject = None, m_bAcceptCaseInsensitiveLiterals = True\<rparr>
          (Some E_INVALID_JSON)
   \<and> JSON_JSON P ''[1,2,3]'' False = Propagated (Throw E_INVALID_JSON)\<close>
  by (simp add: JSON_JSON_def ParseDocument_def lex_eval parse_eval)

text \<open>
  C7, as amended. Where the lexer begins a bare value, the token is the substring up to,
  and without, the next character of \<^verbatim>\<open>closingChars\<close>, which are the white-space characters
  and the structural characters other than the colon. The token is appended to the tokens
  read so far and is followed in the output by the tokens of the rest of the buffer, which
  the lexer reads from that character on. With no such character up to the end of the
  buffer the lexer throws \<open>E_LEXING_ERR_INVALID_VALUE\<close>.
\<close>

theorem bare_value_token_emitted:
  assumes "pos < length str"
    and "\<not> is_whitespace (str ! pos)" and "\<not> is_structural (str ! pos)" and "str ! pos \<noteq> CHR 0x22"
  shows "((\<forall>i. pos \<le> i \<and> i < length str \<longrightarrow> str ! i \<notin> set closingChars) \<longrightarrow>
            LexLoop str pos tokens = Inl (Throw E_LEXING_ERR_INVALID_VALUE))
       \<and> (pos \<le> e \<and> e < length str \<and> str ! e \<in> set closingChars \<and>
            (\<forall>i. pos \<le> i \<and> i < e \<longrightarrow> str ! i \<notin> set closingChars) \<longrightarrow>
            (\<forall>rest. LexLoop str e [] = Inr rest \<longrightarrow>
               LexLoop str pos tokens = Inr (tokens @ [substr str pos (e - pos)] @ rest)) \<and>
            (\<forall>f. LexLoop str e [] = Inl f \<longrightarrow> LexLoop str pos tokens = Inl f) \<and>
            (e + 1 = length str \<longrightarrow>
               LexLoop str pos tokens =
                 Inr (tokens @ [substr str pos (e - pos)] @
                      (if is_whitespace (str ! e) then [] else [[str ! e]]))))
       \<and> (\<forall>c. c \<in> set closingChars \<longleftrightarrow> is_whitespace c \<or> (is_structural c \<and> c \<noteq> CHR '':''))"
proof (intro conjI impI)
  assume "\<forall>i. pos \<le> i \<and> i < length str \<longrightarrow> str ! i \<notin> set closingChars"
  then have "FindClosingCharacter str pos = None"
    by (simp add: FindClosingCharacter_None_iff)
  with assms show "LexLoop str pos tokens = Inl (Throw E_LEXING_ERR_INVALID_VALUE)"
    by (subst LexLoop.simps) simp
next
  assume a: "pos \<le> e \<and> e < length str \<and> str ! e \<in> set closingChars \<and>
            (\<forall>i. pos \<le> i \<and> i < e \<longrightarrow> str ! i \<notin> set closingChars)"
  then have f: "FindClosingCharacter str pos = Some e"
    by (simp add: FindClosingCharacter_Some_iff)
  then have "e \<noteq> pos"
    using assms by (auto simp: FindClosingCharacter_Some_iff closingChars_iff)
  moreover from f have "pos \<le> e" by (simp add: FindClosingCharacter_Some_iff)
  ultimately have "e - 1 + 1 = e" by simp
  with f assms have "LexLoop str pos tokens = LexLoop str e (tokens @ [substr str pos (e - pos)])"
    by (subst LexLoop.simps) simp
  then have step: "LexLoop str pos tokens =
      lex_cons (tokens @ [substr str pos (e - pos)]) (LexLoop str e [])"
    using LexLoop_acc[of str e "tokens @ [substr str pos (e - pos)]"] by simp
  show "\<forall>rest. LexLoop str e [] = Inr rest \<longrightarrow>
               LexLoop str pos tokens = Inr (tokens @ [substr str pos (e - pos)] @ rest)"
    using step by simp
  show "\<forall>f. LexLoop str e [] = Inl f \<longrightarrow> LexLoop str pos tokens = Inl f"
    using step by simp
  show "LexLoop str pos tokens =
          Inr (tokens @ [substr str pos (e - pos)] @
               (if is_whitespace (str ! e) then [] else [[str ! e]]))"
    if last: "e + 1 = length str"
  proof -
    from a have inb: "e < length str" and cl: "str ! e \<in> set closingChars" by simp_all
    have fin: "LexLoop str (e + 1) tk = Inr tk" for tk
      using last by (subst LexLoop.simps) simp
    have one: "substr str e 1 = [str ! e]"
      using inb by (simp add: substr_def take_Suc hd_drop_conv_nth)
    have "LexLoop str e [] = Inr (if is_whitespace (str ! e) then [] else [[str ! e]])"
    proof (cases "is_whitespace (str ! e)")
      case True
      with inb fin[of "[]"] show ?thesis by (subst LexLoop.simps) simp
    next
      case False
      with cl have "is_structural (str ! e)" by (simp add: closingChars_iff)
      with False inb fin[of "[[str ! e]]"] one show ?thesis by (subst LexLoop.simps) simp
    qed
    with step show ?thesis by simp
  qed
next
  show "\<forall>c. c \<in> set closingChars \<longleftrightarrow> is_whitespace c \<or> (is_structural c \<and> c \<noteq> CHR '':'')"
    by (simp add: closingChars_iff)
qed

theorem bare_value_token_emitted_witness:
  "Lex ''a:b,'' = Inr [''a:b'', '','']
   \<and> LexLoop ''a:b,'' 3 [] = Inr ['','']
   \<and> LexLoop ''{ab }'' 1 [''{''] = Inr [''{'', ''ab'', ''}'']
   \<and> LexLoop ''a:b'' 0 [] = Inl (Throw E_LEXING_ERR_INVALID_VALUE)"
proof -
  have r: "LexLoop ''a:b,'' 3 [] = Inr ['','']"
    by (simp add: lex_eval)
  have r2: "LexLoop ''{ab }'' 3 [] = Inr [''}'']"
    by (simp add: lex_eval)
  note t1 = bare_value_token_emitted [where pos = 0 and str = "''a:b,''" and e = 3 and tokens = "[]"]
  note t2 = bare_value_token_emitted [where pos = 1 and str = "''{ab }''" and e = 3 and tokens = "[''{'']"]
  note t3 = bare_value_token_emitted [where pos = 0 and str = "''a:b''" and tokens = "[]"]
  have a: "Lex ''a:b,'' = Inr [''a:b'', '','']"
    unfolding Lex_def using t1 r
    by (simp add: is_whitespace_def is_structural_def closingChars_def substr_def nth_Cons')
  have b: "LexLoop ''{ab }'' 1 [''{''] = Inr [''{'', ''ab'', ''}'']"
    using t2 r2
    by (simp add: is_whitespace_def is_structural_def closingChars_def substr_def nth_Cons')
  have c: "LexLoop ''a:b'' 0 [] = Inl (Throw E_LEXING_ERR_INVALID_VALUE)"
    using t3
    by (simp add: is_whitespace_def is_structural_def closingChars_def nth_Cons' less_Suc_eq)
  from a r b c show ?thesis by simp
qed

text \<open>C7, counterexample to the claim as stated: a colon does not end a bare value.\<close>

theorem colon_does_not_end_bare_token:
  "Lex ''a:b,'' = Inr [''a:b'', '','']"
  by (simp add: lex_eval)

text \<open>
  C9. The member loops skip a comma token wherever they meet one, whatever token comes
  before it, so leading and repeated commas are accepted: the productions succeed on
  \<^verbatim>\<open>{,"a":1}\<close>, on \<^verbatim>\<open>[1,,2]\<close> (also as a member value) and on \<^verbatim>\<open>{,}\<close>, which is the empty Object.
\<close>

theorem comma_tokens_are_skipped:
  \<open>ParseObjectLoop P acc (prev # '','' # it) children = ParseObjectLoop P acc ('','' # it) children
   \<and> ParseArrayLoop P acc (prev # '','' # it) elements = ParseArrayLoop P acc ('','' # it) elements
   \<and> ParseDocument P ''{,"a":1}'' = Inr (ObjectElement [] [NumberElement ''a'' (TYPE_INTEGER 1) 0])
   \<and> Lex ''[1,,2]'' = Inr [''['', ''1'', '','', '','', ''2'', '']'']
   \<and> Parse P True [''['', ''1'', '','', '','', ''2'', '']''] [] =
        Inr (Some (ArrayElement [] [NumberElement [] (TYPE_INTEGER 1) 0, NumberElement [] (TYPE_INTEGER 2) 0]), ['']''])
   \<and> ParseDocument P ''{"x":[1,,2]}'' =
        Inr (ObjectElement [] [ArrayElement ''x'' [NumberElement [] (TYPE_INTEGER 1) 0, NumberElement [] (TYPE_INTEGER 2) 0]])
   \<and> ParseDocument P ''{,}'' = Inr (ObjectElement [] [])\<close>
proof (intro conjI)
  show "ParseObjectLoop P acc (prev # '','' # it) children = ParseObjectLoop P acc ('','' # it) children"
    by (simp add: ParseObjectLoop.simps)
  show "ParseArrayLoop P acc (prev # '','' # it) elements = ParseArrayLoop P acc ('','' # it) elements"
    by (simp add: ParseArrayLoop.simps)
qed (simp_all add: ParseDocument_def lex_eval parse_eval)



text \<open>
  C6. When the tokens end before the \<^verbatim>\<open>}\<close>, the loop of the Object production is left with
  \<open>it = end\<close> and the test \<^verbatim>\<open>*it != "}"\<close> that guards the closing-bracket error reads the end
  iterator; after a member that ends the tokens, \<^verbatim>\<open>*next(it)\<close> does. On the token \<^verbatim>\<open>{\<close> alone
  and on the tokens of \<^verbatim>\<open>{"a":1\<close> no error code is thrown: the behaviour is undefined.
\<close>

theorem missing_brace_reads_past_end:
  \<open>ParseObjectElement P acc [''{''] key = Inl Undefined
   \<and> ParseObjectElement P acc [''{'', ''"a"'', '':'', ''1''] key = Inl Undefined
   \<and> Lex ''{'' = Inr [''{'']
   \<and> ParseDocument P ''{'' = Inl Undefined
   \<and> JSON_JSON P ''{'' True = Propagated Undefined\<close>
  by (simp add: JSON_JSON_def ParseDocument_def lex_eval parse_eval)

text \<open>
  C8. In the tree of a parsed document the root has an empty key, every member of an
  Object has a non-empty key and every item of an Array has an empty key.
\<close>

theorem key_nonempty_iff_object_member:
  assumes "ParseDocument P json = Inr root"
  shows "key_of root = [] \<and> keyed_iff_member root"
  using ParseDocument_wf[OF assms] wf_keyed by blast

theorem key_nonempty_iff_object_member_witness:
  \<open>ParseDocument ref_platform ''{"a":[1,{"b":null}]}'' =
     Inr (ObjectElement [] [ArrayElement ''a''
            [NumberElement [] (TYPE_INTEGER 1) 0, ObjectElement [] [NullElement ''b'']]])
   \<and> keyed_iff_member (ObjectElement [] [ArrayElement ''a''
            [NumberElement [] (TYPE_INTEGER 1) 0, ObjectElement [] [NullElement ''b'' :: decimal Element]]])\<close>
  using key_nonempty_iff_object_member [where P = ref_platform and json = \<open>''{"a":[1,{"b":null}]}''\<close>
      and root = \<open>ObjectElement [] [ArrayElement ''a''
            [NumberElement [] (TYPE_INTEGER 1) 0, ObjectElement [] [NullElement ''b'']]]\<close>]
  by (simp add: ParseDocument_def lex_eval parse_eval)

text \<open>
  C10. A token of at most two characters, such as the empty string literal \<^verbatim>\<open>""\<close>, is
  rejected by the String production with \<open>E_PARSE_ERR_INVALID_STRING\<close> and by the Key
  production with \<open>E_INVALID_JSON_KEY_STRING\<close>; no String value and no member key of a
  parsed document is empty.
\<close>

theorem short_quoted_tokens_rejected:
  "(length tok \<le> 2 \<longrightarrow>
      ParseStringElement (tok # rest) key = (Inl (Throw E_PARSE_ERR_INVALID_STRING) :: fault + ('ld Element \<times> string list)))
   \<and> (length tok \<le> 2 \<longrightarrow> ParseKey (tok # rest) = Inl (Throw E_INVALID_JSON_KEY_STRING))
   \<and> (ParseDocument P json = Inr (root :: 'ld Element) \<longrightarrow> no_empty_text root)"
proof (intro conjI impI)
  assume "ParseDocument P json = Inr root"
  from ParseDocument_wf[OF this] wf_no_empty show "no_empty_text root" by blast
qed (simp_all add: ParseStringElement.simps ParseKey.simps)

theorem short_quoted_tokens_rejected_witness:
  \<open>ParseStringElement [''""'', ''}''] ''a'' =
       (Inl (Throw E_PARSE_ERR_INVALID_STRING) :: fault + (decimal Element \<times> string list))
   \<and> ParseKey [''""'', '':'', ''1'', ''}''] = Inl (Throw E_INVALID_JSON_KEY_STRING)
   \<and> ParseDocument ref_platform ''{"a":"x"}'' = Inr (ObjectElement [] [StringElement ''a'' ''x''])
   \<and> no_empty_text (ObjectElement [] [StringElement ''a'' ''x''] :: decimal Element)\<close>
  using short_quoted_tokens_rejected [where tok = \<open>''""''\<close> and rest = \<open>[''}'']\<close> and key = \<open>''a''\<close>
      and P = ref_platform and json = \<open>''{"a":"x"}''\<close>
      and root = \<open>ObjectElement [] [StringElement ''a'' ''x'']\<close>]
    short_quoted_tokens_rejected [where tok = \<open>''""''\<close> and rest = \<open>['':'', ''1'', ''}'']\<close>
      and P = ref_platform and json = \<open>''{"a":"x"}''\<close>
      and root = \<open>ObjectElement [] [StringElement ''a'' ''x'']\<close>]
  by (simp add: ParseDocument_def lex_eval parse_eval)






end
